theory Spec2Isabelle
  imports Complex_Main
begin

section \<open>The 2048 board of src/index.ts\<close>

text \<open>
  The program keeps its tiles as \<^verbatim>\<open>Block\<close> objects and its grid as a
  two-dimensional array of references to them (\<^verbatim>\<open>(Block | null)[][]\<close>).
  A block mutates its own fields and then stores a reference to itself in the
  board, so two cells can refer to the same object. The model therefore has an
  explicit store: a reference is a natural number, the heap maps references to
  blocks, and a cell holds \<open>None\<close> (\<^verbatim>\<open>null\<close>) or \<open>Some r\<close>.

  JavaScript numbers are modelled as \<open>int\<close> where the program only ever
  produces integers (coordinates, tile values) and as \<open>real\<close> for the
  animation progress, the random numbers and the pixel offsets. A double holds
  the integers of the program exactly as long as the value of a tile stays below
  \<open>2 ^ 1024\<close>, where the program has \<^verbatim>\<open>Infinity\<close> and the model goes on
  doubling. The rounding of a result to a double is modelled where a theorem
  below depends on it: in the value of a spawned tile.
\<close>

subsection \<open>Data\<close>

type_synonym ref = nat

record Block =
  value' :: int
  gridX :: int
  gridY :: int
  targetX :: int
  targetY :: int
  offsetX :: real
  offsetY :: real

record Board =
  cols :: int
  rows :: int
  blocks :: "ref option list list"

text \<open>
  \<open>RangeError v lo hi\<close> is the \<^verbatim>\<open>Error\<close> thrown by \<^verbatim>\<open>assertRange\<close>, with the
  three numbers of its message; \<open>TypeError\<close> is what JavaScript throws when a
  property of \<^verbatim>\<open>undefined\<close> is read or written.
\<close>

datatype error = RangeError int int int | TypeError

record world =
  heap :: "ref \<Rightarrow> Block"
  fresh :: ref
  board :: Board

datatype Action = IDLE | MOVE_LEFT | MOVE_RIGHT | MOVE_UP | MOVE_DOWN

record session =
  delta :: real
  action :: Action
  world :: world

definition blockSize :: int where
  "blockSize = 50"

subsection \<open>Helpers: numbers, arrays, loops\<close>

definition lerp :: "real \<Rightarrow> real \<Rightarrow> real \<Rightarrow> real" where
  "lerp a b d = (b - a) * d + a"

definition assertRange :: "int \<Rightarrow> int \<Rightarrow> int \<Rightarrow> error option" where
  "assertRange v lo hi = (if v < lo \<or> v \<ge> hi then Some (RangeError v lo hi) else None)"

text \<open>
  Reading a JavaScript array outside its range gives \<^verbatim>\<open>undefined\<close>
  (here \<open>None\<close>); writing at or beyond its length extends it.
\<close>

definition js_get :: "'a list \<Rightarrow> int \<Rightarrow> 'a option" where
  "js_get xs i = (if 0 \<le> i \<and> nat i < length xs then Some (xs ! nat i) else None)"

text \<open>
  A write at a negative index sets a property that is no array element; the
  model leaves the elements as they are.
\<close>

definition js_set :: "'a option list \<Rightarrow> int \<Rightarrow> 'a option \<Rightarrow> 'a option list" where
  "js_set xs i v =
     (if i < 0 then xs
      else if nat i < length xs then xs[nat i := v]
      else xs @ replicate (nat i - length xs) None @ [v])"

text \<open>\<^verbatim>\<open>this.blocks[x][y]\<close>, read.\<close>

definition cell :: "Board \<Rightarrow> int \<Rightarrow> int \<Rightarrow> error + ref option" where
  "cell b x y =
     (case js_get (blocks b) x of
        None \<Rightarrow> Inl TypeError
      | Some col \<Rightarrow> Inr (case js_get col y of None \<Rightarrow> None | Some c \<Rightarrow> c))"

text \<open>\<^verbatim>\<open>this.blocks[x][y] = v\<close>.\<close>

definition cell_set :: "Board \<Rightarrow> int \<Rightarrow> int \<Rightarrow> ref option \<Rightarrow> Board \<times> error option" where
  "cell_set b x y v =
     (case js_get (blocks b) x of
        None \<Rightarrow> (b, Some TypeError)
      | Some col \<Rightarrow> (b\<lparr>blocks := (blocks b)[nat x := js_set col y v]\<rparr>, None))"

text \<open>
  A \<^verbatim>\<open>for\<close> loop over a fixed range of indices. A body that throws ends the
  loop; what it had changed before stays changed.
\<close>

fun for_loop :: "int list \<Rightarrow> (int \<Rightarrow> 's \<Rightarrow> 's \<times> error option) \<Rightarrow> 's \<Rightarrow> 's \<times> error option" where
  "for_loop [] body s = (s, None)"
| "for_loop (i # is) body s =
     (case body i s of
        (s', Some e) \<Rightarrow> (s', Some e)
      | (s', None) \<Rightarrow> for_loop is body s')"

subsection \<open>Board.block\<close>

text \<open>The two-argument overload: the reference held by a cell.\<close>

definition Board_block :: "Board \<Rightarrow> int \<Rightarrow> int \<Rightarrow> error + ref option" where
  "Board_block b gx gy =
     (case assertRange gx 0 (cols b) of
        Some e \<Rightarrow> Inl e
      | None \<Rightarrow>
         (case assertRange gy 0 (rows b) of
            Some e \<Rightarrow> Inl e
          | None \<Rightarrow> cell b gx gy))"

text \<open>The three-argument overload: store a block in a cell.\<close>

definition Board_block_set :: "Board \<Rightarrow> int \<Rightarrow> int \<Rightarrow> ref \<Rightarrow> Board \<times> error option" where
  "Board_block_set b gx gy r =
     (case assertRange gx 0 (cols b) of
        Some e \<Rightarrow> (b, Some e)
      | None \<Rightarrow>
         (case assertRange gy 0 (rows b) of
            Some e \<Rightarrow> (b, Some e)
          | None \<Rightarrow> cell_set b gx gy (Some r)))"

subsection \<open>The constructor of Block, and Block.update\<close>

definition new_Block :: "int \<Rightarrow> int \<Rightarrow> int \<Rightarrow> Block" where
  "new_Block v x y =
     \<lparr>value' = v, gridX = x, gridY = y, targetX = x, targetY = y, offsetX = 0, offsetY = 0\<rparr>"

definition Block_update :: "Block \<Rightarrow> real \<Rightarrow> Block" where
  "Block_update b d =
     (if d \<ge> 1 then
        b\<lparr>gridX := targetX b, gridY := targetY b, offsetX := 0, offsetY := 0\<rparr>
      else
        b\<lparr>offsetX := - lerp 0 (of_int ((gridX b - targetX b) * blockSize)) d,
          offsetY := - lerp 0 (of_int ((gridY b - targetY b) * blockSize)) d\<rparr>)"

subsection \<open>Block.moveLeft and Block.moveRight\<close>

definition set_block :: "world \<Rightarrow> ref \<Rightarrow> Block \<Rightarrow> world" where
  "set_block s r b = s\<lparr>heap := (heap s)(r := b)\<rparr>"

function moveLeft_while :: "world \<Rightarrow> ref \<Rightarrow> world \<times> error option" where
  "moveLeft_while s this =
     (if targetX (heap s this) > 0 then
        (case Board_block (board s) (targetX (heap s this) - 1) (gridY (heap s this)) of
           Inl e \<Rightarrow> (s, Some e)
         | Inr None \<Rightarrow>
             moveLeft_while
               (set_block s this ((heap s this)\<lparr>targetX := targetX (heap s this) - 1\<rparr>)) this
         | Inr (Some tb) \<Rightarrow>
             if value' (heap s tb) = value' (heap s this) then
               moveLeft_while
                 (set_block s this
                    ((heap s this)\<lparr>targetX := targetX (heap s this) - 1,
                                   value' := value' (heap s this) * 2\<rparr>)) this
             else (s, None))
      else (s, None))"
  by pat_completeness auto
termination
  by (relation "measure (\<lambda>(s, this). nat (targetX (heap s this)))")
     (auto simp: set_block_def)

definition Block_moveLeft :: "world \<Rightarrow> ref \<Rightarrow> world \<times> error option" where
  "Block_moveLeft s this =
     (case moveLeft_while s this of
        (s1, Some e) \<Rightarrow> (s1, Some e)
      | (s1, None) \<Rightarrow>
         (case Board_block_set (board s1) (targetX (heap s1 this)) (targetY (heap s1 this)) this of
            (b, err) \<Rightarrow> (s1\<lparr>board := b\<rparr>, err)))"

function moveRight_while :: "world \<Rightarrow> ref \<Rightarrow> world \<times> error option" where
  "moveRight_while s this =
     (if targetX (heap s this) < cols (board s) - 1 then
        (case Board_block (board s) (targetX (heap s this) + 1) (gridY (heap s this)) of
           Inl e \<Rightarrow> (s, Some e)
         | Inr None \<Rightarrow>
             moveRight_while
               (set_block s this ((heap s this)\<lparr>targetX := targetX (heap s this) + 1\<rparr>)) this
         | Inr (Some tb) \<Rightarrow>
             if value' (heap s tb) = value' (heap s this) then
               moveRight_while
                 (set_block s this
                    ((heap s this)\<lparr>targetX := targetX (heap s this) + 1,
                                   value' := value' (heap s this) * 2\<rparr>)) this
             else (s, None))
      else (s, None))"
  by pat_completeness auto
termination
  by (relation "measure (\<lambda>(s, this). nat (cols (board s) - 1 - targetX (heap s this)))")
     (auto simp: set_block_def)

definition Block_moveRight :: "world \<Rightarrow> ref \<Rightarrow> world \<times> error option" where
  "Block_moveRight s this =
     (case moveRight_while s this of
        (s1, Some e) \<Rightarrow> (s1, Some e)
      | (s1, None) \<Rightarrow>
         (case Board_block_set (board s1) (targetX (heap s1 this)) (targetY (heap s1 this)) this of
            (b, err) \<Rightarrow> (s1\<lparr>board := b\<rparr>, err)))"

subsection \<open>The sweeps of Board\<close>

text \<open>
  \<^verbatim>\<open>this.blocks[x][y]?.m(this)\<close>: nothing happens at an empty cell, the
  method runs on the block of an occupied one.
\<close>

definition on_cell :: "(world \<Rightarrow> ref \<Rightarrow> world \<times> error option) \<Rightarrow> int \<Rightarrow> int \<Rightarrow> world \<Rightarrow> world \<times> error option" where
  "on_cell m x y s =
     (case cell (board s) x y of
        Inl e \<Rightarrow> (s, Some e)
      | Inr None \<Rightarrow> (s, None)
      | Inr (Some r) \<Rightarrow> m s r)"

definition Board_moveLeft :: "world \<Rightarrow> world \<times> error option" where
  "Board_moveLeft s =
     for_loop [1 .. cols (board s) - 1]
       (\<lambda>x. for_loop [0 .. rows (board s) - 1] (\<lambda>y. on_cell Block_moveLeft x y)) s"

definition Board_moveRight :: "world \<Rightarrow> world \<times> error option" where
  "Board_moveRight s =
     for_loop [0 .. cols (board s) - 2]
       (\<lambda>x. for_loop [0 .. rows (board s) - 1] (\<lambda>y. on_cell Block_moveRight x y)) s"

definition Board_update :: "real \<Rightarrow> world \<Rightarrow> world \<times> error option" where
  "Board_update d s =
     for_loop [0 .. cols (board s) - 1]
       (\<lambda>x. for_loop [0 .. rows (board s) - 1]
          (\<lambda>y. on_cell (\<lambda>s r. (set_block s r (Block_update (heap s r) d), None)) x y)) s"

subsection \<open>Rounding to a double\<close>

text \<open>
  The nearest integer, the even one of the two when they are equally near.
\<close>

definition round_even :: "real \<Rightarrow> int" where
  "round_even q =
     (if q - of_int \<lfloor>q\<rfloor> < 1 / 2 then \<lfloor>q\<rfloor>
      else if 1 / 2 < q - of_int \<lfloor>q\<rfloor> then \<lfloor>q\<rfloor> + 1
      else if even \<lfloor>q\<rfloor> then \<lfloor>q\<rfloor> else \<lfloor>q\<rfloor> + 1)"

text \<open>
  The double nearest to a real number, as the arithmetic of JavaScript rounds
  every result (IEEE 754, 53 binary digits, ties to even); the numbers too large
  or too small for the normal range of a double are left aside.
\<close>

definition double :: "real \<Rightarrow> real" where
  "double x =
     (if x = 0 then 0
      else of_int (round_even (x / 2 powr (of_int \<lfloor>log 2 \<bar>x\<bar>\<rfloor> - 52)))
           * 2 powr (of_int \<lfloor>log 2 \<bar>x\<bar>\<rfloor> - 52))"

subsection \<open>Board.newBlock and Board.start\<close>

text \<open>
  \<^verbatim>\<open>Math.random()\<close> is an input of the model: the list of the numbers it
  returns, in the order of the calls. The loop of \<^verbatim>\<open>newBlock\<close> draws two
  numbers per round, and may go on forever; the result \<open>None\<close> says that the
  call has not returned after all the numbers of the list were drawn.

  The value of the new tile is \<^verbatim>\<open>Math.floor(Math.random() * 2 + 1) * 2\<close>. The
  product by 2 is exact in a double; the sum is rounded, which decides the value
  when the number drawn is the largest double below 1. The products that give
  the coordinates are taken exactly.
\<close>

fun newBlock_while :: "Board \<Rightarrow> int \<Rightarrow> int \<Rightarrow> real list \<Rightarrow> ((error + int \<times> int) \<times> real list) option" where
  "newBlock_while b x y rs =
     (case cell b x y of
        Inl e \<Rightarrow> Some (Inl e, rs)
      | Inr None \<Rightarrow> Some (Inr (x, y), rs)
      | Inr (Some tb) \<Rightarrow>
         (case rs of
            r1 # r2 # rs' \<Rightarrow>
              newBlock_while b \<lfloor>r1 * of_int (cols b)\<rfloor> \<lfloor>r2 * of_int (rows b)\<rfloor> rs'
          | _ \<Rightarrow> None))"

definition newBlock :: "real list \<Rightarrow> world \<Rightarrow> ((world \<times> error option) \<times> real list) option" where
  "newBlock rs s =
     (case rs of
        r1 # r2 # rs1 \<Rightarrow>
          (case newBlock_while (board s)
                  \<lfloor>r1 * of_int (cols (board s))\<rfloor> \<lfloor>r2 * of_int (rows (board s))\<rfloor> rs1 of
             None \<Rightarrow> None
           | Some (Inl e, rs2) \<Rightarrow> Some ((s, Some e), rs2)
           | Some (Inr (x, y), rs2) \<Rightarrow>
              (case rs2 of
                 [] \<Rightarrow> None
               | r3 # rs3 \<Rightarrow>
                  (case cell_set (board s) x y (Some (fresh s)) of
                     (b, err) \<Rightarrow>
                       Some ((\<lparr>heap = (heap s)(fresh s := new_Block (\<lfloor>double (r3 * 2 + 1)\<rfloor> * 2) x y),
                               fresh = Suc (fresh s),
                               board = b\<rparr>, err), rs3))))
      | _ \<Rightarrow> None)"

definition clear_cell :: "int \<Rightarrow> int \<Rightarrow> world \<Rightarrow> world \<times> error option" where
  "clear_cell x y s = (case cell_set (board s) x y None of (b, err) \<Rightarrow> (s\<lparr>board := b\<rparr>, err))"

text \<open>
  \<^verbatim>\<open>start\<close> calls \<^verbatim>\<open>newBlock\<close> on the global \<^verbatim>\<open>board\<close>, the only board of
  the program, which is the board it runs on.
\<close>

definition Board_start :: "real list \<Rightarrow> world \<Rightarrow> ((world \<times> error option) \<times> real list) option" where
  "Board_start rs s =
     (case for_loop [0 .. cols (board s) - 1]
             (\<lambda>x. for_loop [0 .. rows (board s) - 1] (\<lambda>y. clear_cell x y)) s of
        (s1, Some e) \<Rightarrow> Some ((s1, Some e), rs)
      | (s1, None) \<Rightarrow>
         (case newBlock rs s1 of
            None \<Rightarrow> None
          | Some ((s2, Some e), rs2) \<Rightarrow> Some ((s2, Some e), rs2)
          | Some ((s2, None), rs2) \<Rightarrow> newBlock rs2 s2))"

subsection \<open>The frame callback draw\<close>

text \<open>The \<^verbatim>\<open>switch\<close> of \<^verbatim>\<open>draw\<close>; it is entered only when the action is not IDLE.\<close>

fun dispatch :: "Action \<Rightarrow> world \<Rightarrow> world \<times> error option" where
  "dispatch MOVE_LEFT s = Board_moveLeft s"
| "dispatch MOVE_RIGHT s = Board_moveRight s"
| "dispatch MOVE_UP s = Board_moveLeft s"
| "dispatch MOVE_DOWN s = Board_moveLeft s"
| "dispatch IDLE s = (s, None)"

text \<open>
  Drawing on the canvas and \<^verbatim>\<open>requestAnimationFrame\<close> leave the state of the
  game as it is and are left out.
\<close>

definition draw :: "session \<Rightarrow> session \<times> error option" where
  "draw st =
     (case Board_update (delta st + 1 / 10) (world st) of
        (w1, Some e) \<Rightarrow> (st\<lparr>delta := delta st + 1 / 10, world := w1\<rparr>, Some e)
      | (w1, None) \<Rightarrow>
         if delta st + 1 / 10 > 1 \<and> action st \<noteq> IDLE then
           (case dispatch (action st) w1 of
              (w2, Some e) \<Rightarrow> (st\<lparr>delta := delta st + 1 / 10, world := w2\<rparr>, Some e)
            | (w2, None) \<Rightarrow> (st\<lparr>delta := 0, action := IDLE, world := w2\<rparr>, None))
         else (st\<lparr>delta := delta st + 1 / 10, world := w1\<rparr>, None))"

subsection \<open>Boards as the constructor makes them, and example states\<close>

text \<open>The constructor of \<^verbatim>\<open>Board\<close>: \<open>cols\<close> columns of \<open>rows\<close> empty cells.\<close>

definition new_Board :: "int \<Rightarrow> int \<Rightarrow> Board" where
  "new_Board c r = \<lparr>cols = c, rows = r, blocks = replicate (nat c) (replicate (nat r) None)\<rparr>"

text \<open>The shape the constructor gives the array, which no method changes.\<close>

definition shaped :: "Board \<Rightarrow> bool" where
  "shaped b \<longleftrightarrow>
     length (blocks b) = nat (cols b) \<and> (\<forall>col \<in> set (blocks b). length col = nat (rows b))"

text \<open>The blocks that some cell of the board refers to.\<close>

definition tiles :: "Board \<Rightarrow> ref set" where
  "tiles b = {r. \<exists>col \<in> set (blocks b). Some r \<in> set col}"

definition is_pow2 :: "int \<Rightarrow> bool" where
  "is_pow2 v \<longleftrightarrow> (\<exists>k::nat. v = 2 ^ k)"

text \<open>
  A 4 by 4 board whose row 0 holds the given values from column 0 on (0 for an
  empty cell), every other row empty. The block of column \<open>i\<close> has reference \<open>i\<close>
  and is settled in its cell.
\<close>

definition row_world :: "int list \<Rightarrow> world" where
  "row_world vs =
     \<lparr>heap = (\<lambda>r. new_Block (if r < length vs then vs ! r else 0) (int r) 0),
      fresh = 4,
      board = \<lparr>cols = 4, rows = 4,
                blocks = map (\<lambda>i. (if vs ! i = 0 then None else Some i) # [None, None, None])
                           [0 ..< 4]\<rparr>\<rparr>"

text \<open>Row 0 of the board as the cells show it: the value of the block of each cell.\<close>

definition row_values :: "world \<Rightarrow> int option list" where
  "row_values s =
     map (\<lambda>col. case col ! 0 of None \<Rightarrow> None | Some r \<Rightarrow> Some (value' (heap s r)))
       (blocks (board s))"

definition row_refs :: "world \<Rightarrow> ref option list" where
  "row_refs s = map (\<lambda>col. col ! 0) (blocks (board s))"

subsection \<open>What a move may change\<close>

text \<open>
  \<open>grows h h'\<close>: from the heap \<open>h\<close> to the heap \<open>h'\<close> no block has changed
  anything but its target column and its value, and the value only by doubling.
\<close>

definition grows :: "(ref \<Rightarrow> Block) \<Rightarrow> (ref \<Rightarrow> Block) \<Rightarrow> bool" where
  "grows h h' \<longleftrightarrow>
     (\<forall>r. gridX (h' r) = gridX (h r) \<and> gridY (h' r) = gridY (h r)
        \<and> targetY (h' r) = targetY (h r)
        \<and> offsetX (h' r) = offsetX (h r) \<and> offsetY (h' r) = offsetY (h r)
        \<and> (\<exists>k::nat. value' (h' r) = value' (h r) * 2 ^ k))"

text \<open>
  \<open>evolves s s'\<close>: moreover the board has kept its dimensions and refers to no
  block it did not refer to before.
\<close>

definition evolves :: "world \<Rightarrow> world \<Rightarrow> bool" where
  "evolves s s' \<longleftrightarrow>
     grows (heap s) (heap s') \<and> cols (board s') = cols (board s) \<and> rows (board s') = rows (board s)
     \<and> tiles (board s') \<subseteq> tiles (board s) \<and> fresh s' = fresh s"

subsection \<open>Full boards and random numbers\<close>

text \<open>A board with no empty cell.\<close>

definition full :: "Board \<Rightarrow> bool" where
  "full b \<longleftrightarrow> (\<forall>col \<in> set (blocks b). None \<notin> set col)"

text \<open>What \<^verbatim>\<open>Math.random()\<close> promises of the numbers it returns.\<close>

definition unit_draws :: "real list \<Rightarrow> bool" where
  "unit_draws rs \<longleftrightarrow> (\<forall>r \<in> set rs. 0 \<le> r \<and> r < 1)"

text \<open>A 4 by 4 board with a tile of value 2 in every cell.\<close>

definition full_world :: world where
  "full_world =
     \<lparr>heap = (\<lambda>r. new_Block 2 (int (r div 4)) (int (r mod 4))),
      fresh = 16,
      board = \<lparr>cols = 4, rows = 4,
                blocks = map (\<lambda>x. map (\<lambda>y. Some (4 * x + y)) [0 ..< 4]) [0 ..< 4]\<rparr>\<rparr>"

text \<open>The empty 4 by 4 board, before any block was made.\<close>

definition empty_world :: world where
  "empty_world = \<lparr>heap = (\<lambda>r. new_Block 0 0 0), fresh = 0, board = new_Board 4 4\<rparr>"

subsection \<open>Settled boards and the sweep to the left\<close>

text \<open>The coordinates of a cell of the board.\<close>

definition inside :: "Board \<Rightarrow> int \<Rightarrow> int \<Rightarrow> bool" where
  "inside b c r \<longleftrightarrow> 0 \<le> c \<and> c < cols b \<and> 0 \<le> r \<and> r < rows b"

text \<open>
  A settled board: it has the shape the constructor gives it, and every occupied
  cell holds a tile that is at rest in that cell (its current and its target
  position are the cell) and has a positive value.
\<close>

definition settled :: "world \<Rightarrow> bool" where
  "settled s \<longleftrightarrow>
     shaped (board s)
     \<and> (\<forall>c r q. inside (board s) c r \<and> cell (board s) c r = Inr (Some q) \<longrightarrow>
           0 < value' (heap s q)
           \<and> gridX (heap s q) = c \<and> gridY (heap s q) = r
           \<and> targetX (heap s q) = c \<and> targetY (heap s q) = r)"

text \<open>
  A tile that \<^verbatim>\<open>Block.moveLeft\<close> leaves as it is: the cell of its target position
  holds it, and it is at the wall or the cell before it holds a tile of another
  value.
\<close>

definition stuck :: "world \<Rightarrow> ref \<Rightarrow> bool" where
  "stuck s q \<longleftrightarrow>
     inside (board s) (targetX (heap s q)) (targetY (heap s q))
     \<and> gridY (heap s q) = targetY (heap s q)
     \<and> cell (board s) (targetX (heap s q)) (targetY (heap s q)) = Inr (Some q)
     \<and> (targetX (heap s q) = 0
        \<or> (\<exists>p. cell (board s) (targetX (heap s q) - 1) (targetY (heap s q)) = Inr (Some p)
               \<and> value' (heap s p) \<noteq> value' (heap s q)))"

text \<open>The state in which the block \<open>d\<close> has reached the column \<open>p\<close> with the value \<open>v\<close>.\<close>

definition moved :: "world \<Rightarrow> ref \<Rightarrow> int \<Rightarrow> int \<Rightarrow> world" where
  "moved s d p v = set_block s d ((heap s d)\<lparr>targetX := p, value' := v\<rparr>)"

text \<open>
  The invariant of the loop of a tile that started at column \<open>x\<close> of row \<open>y\<close>
  and has reached column \<open>p\<close> with the value \<open>v\<close>: every tile in a cell it has
  passed has a smaller value, and no tile is in two of these cells.
\<close>

definition sliding :: "world \<Rightarrow> int \<Rightarrow> int \<Rightarrow> int \<Rightarrow> int \<Rightarrow> bool" where
  "sliding s x y p v \<longleftrightarrow>
     0 \<le> p \<and> p \<le> x \<and> 0 < v
     \<and> (\<forall>c q. p \<le> c \<and> c < x \<and> cell (board s) c y = Inr (Some q) \<longrightarrow> value' (heap s q) < v)
     \<and> (\<forall>c c' q. p \<le> c \<and> c < x \<and> p \<le> c' \<and> c' < x
            \<and> cell (board s) c y = Inr (Some q) \<and> cell (board s) c' y = Inr (Some q) \<longrightarrow> c = c')"

text \<open>
  The cells that the sweep has visited when it is about to visit the cell
  \<open>(x, y)\<close>, and the invariant of the sweep: the tiles of the visited cells are
  stuck at or before their cell, the tiles of the other cells are where they were.
\<close>

definition done_cell :: "int \<Rightarrow> int \<Rightarrow> int \<Rightarrow> int \<Rightarrow> bool" where
  "done_cell x y c r \<longleftrightarrow> c < x \<or> (c = x \<and> r < y)"

definition sweep_inv :: "int \<Rightarrow> int \<Rightarrow> world \<Rightarrow> bool" where
  "sweep_inv x y s \<longleftrightarrow>
     shaped (board s)
     \<and> (\<forall>c r q. inside (board s) c r \<and> cell (board s) c r = Inr (Some q) \<longrightarrow>
           0 < value' (heap s q) \<and> gridY (heap s q) = r \<and> targetY (heap s q) = r
           \<and> (if done_cell x y c r then targetX (heap s q) \<le> c \<and> stuck s q
               else targetX (heap s q) = c))"

section \<open>Properties\<close>

subsection \<open>Loops and their invariants\<close>

declare moveLeft_while.simps [simp del] moveRight_while.simps [simp del]

lemma for_loop_pres:
  assumes "\<And>i s. P s \<Longrightarrow> P (fst (body i s))" and "P s"
  shows "P (fst (for_loop is body s))"
  using assms(2)
proof (induction "is" arbitrary: s)
  case Nil
  then show ?case by simp
next
  case (Cons i "is")
  have "P (fst (body i s))" using Cons.prems assms(1) by blast
  then show ?case
    using Cons.IH by (cases "body i s") (auto split: option.splits)
qed

lemma moveLeft_while_pres:
  assumes "P s"
    and "\<And>s. P s \<Longrightarrow> P (set_block s this ((heap s this)\<lparr>targetX := targetX (heap s this) - 1\<rparr>))"
    and "\<And>s. P s \<Longrightarrow> P (set_block s this ((heap s this)\<lparr>targetX := targetX (heap s this) - 1,
                                   value' := value' (heap s this) * 2\<rparr>))"
  shows "P (fst (moveLeft_while s this))"
  using assms(1)
proof (induction s t \<equiv> this rule: moveLeft_while.induct)
  case (1 s)
  have a: "P (set_block s this ((heap s this)\<lparr>targetX := targetX (heap s this) - 1\<rparr>))"
    by (rule assms(2) [OF "1.prems"])
  have b: "P (set_block s this ((heap s this)\<lparr>targetX := targetX (heap s this) - 1,
                                   value' := value' (heap s this) * 2\<rparr>))"
    by (rule assms(3) [OF "1.prems"])
  show ?case
    using "1" a b
    by (subst moveLeft_while.simps) (auto split: sum.splits option.splits)
qed

lemma moveRight_while_pres:
  assumes "P s"
    and "\<And>s. P s \<Longrightarrow> P (set_block s this ((heap s this)\<lparr>targetX := targetX (heap s this) + 1\<rparr>))"
    and "\<And>s. P s \<Longrightarrow> P (set_block s this ((heap s this)\<lparr>targetX := targetX (heap s this) + 1,
                                   value' := value' (heap s this) * 2\<rparr>))"
  shows "P (fst (moveRight_while s this))"
  using assms(1)
proof (induction s t \<equiv> this rule: moveRight_while.induct)
  case (1 s)
  have a: "P (set_block s this ((heap s this)\<lparr>targetX := targetX (heap s this) + 1\<rparr>))"
    by (rule assms(2) [OF "1.prems"])
  have b: "P (set_block s this ((heap s this)\<lparr>targetX := targetX (heap s this) + 1,
                                   value' := value' (heap s this) * 2\<rparr>))"
    by (rule assms(3) [OF "1.prems"])
  show ?case
    using "1" a b
    by (subst moveRight_while.simps) (auto split: sum.splits option.splits)
qed

lemma grows_refl: "grows h h"
  unfolding grows_def
proof (intro allI conjI)
  fix r
  have "value' (h r) = value' (h r) * 2 ^ (0::nat)" by simp
  then show "\<exists>k::nat. value' (h r) = value' (h r) * 2 ^ k" by blast
qed simp_all

lemma grows_trans:
  assumes "grows h1 h2" and "grows h2 h3"
  shows "grows h1 h3"
  unfolding grows_def
proof (intro allI conjI)
  fix r
  obtain k where k: "value' (h2 r) = value' (h1 r) * 2 ^ k"
    using assms(1) unfolding grows_def by blast
  obtain j where j: "value' (h3 r) = value' (h2 r) * 2 ^ j"
    using assms(2) unfolding grows_def by blast
  have "value' (h3 r) = value' (h1 r) * 2 ^ (k + j)"
    using k j by (simp add: power_add)
  then show "\<exists>k::nat. value' (h3 r) = value' (h1 r) * 2 ^ k" by blast
qed (use assms in \<open>simp_all add: grows_def\<close>)

lemma grows_slide:
  "grows h (h(this := (h this)\<lparr>targetX := x\<rparr>))"
  unfolding grows_def
proof (intro allI conjI)
  fix r
  have "value' ((h(this := (h this)\<lparr>targetX := x\<rparr>)) r) = value' (h r) * 2 ^ (0::nat)" by simp
  then show "\<exists>k::nat. value' ((h(this := (h this)\<lparr>targetX := x\<rparr>)) r) = value' (h r) * 2 ^ k" by blast
qed simp_all

lemma grows_merge:
  "grows h (h(this := (h this)\<lparr>targetX := x, value' := value' (h this) * 2\<rparr>))"
  unfolding grows_def
proof (intro allI conjI)
  fix r
  show "\<exists>k::nat. value' ((h(this := (h this)\<lparr>targetX := x, value' := value' (h this) * 2\<rparr>)) r) = value' (h r) * 2 ^ k"
  proof (cases "r = this")
    case True
    then have "value' ((h(this := (h this)\<lparr>targetX := x, value' := value' (h this) * 2\<rparr>)) r) = value' (h r) * 2 ^ (1::nat)" by simp
    then show ?thesis by blast
  next
    case False
    then have "value' ((h(this := (h this)\<lparr>targetX := x, value' := value' (h this) * 2\<rparr>)) r) = value' (h r) * 2 ^ (0::nat)" by simp
    then show ?thesis by blast
  qed
qed simp_all


lemma moveLeft_while_frame:
  "grows (heap s) (heap (fst (moveLeft_while s this)))
   \<and> board (fst (moveLeft_while s this)) = board s
   \<and> fresh (fst (moveLeft_while s this)) = fresh s"
proof (rule moveLeft_while_pres
    [where P = "\<lambda>s'::world. grows (heap s) (heap s') \<and> board s' = board s \<and> fresh s' = fresh s"])
  show "grows (heap s) (heap s) \<and> board s = board s \<and> fresh s = fresh s"
    by (simp add: grows_refl)
next
  fix s' :: world
  assume "grows (heap s) (heap s') \<and> board s' = board s \<and> fresh s' = fresh s"
  then show "grows (heap s) (heap (set_block s' this ((heap s' this)\<lparr>targetX := targetX (heap s' this) - 1\<rparr>)))
      \<and> board (set_block s' this ((heap s' this)\<lparr>targetX := targetX (heap s' this) - 1\<rparr>)) = board s
      \<and> fresh (set_block s' this ((heap s' this)\<lparr>targetX := targetX (heap s' this) - 1\<rparr>)) = fresh s"
    using grows_trans [OF _ grows_slide] by (simp add: set_block_def)
next
  fix s' :: world
  assume "grows (heap s) (heap s') \<and> board s' = board s \<and> fresh s' = fresh s"
  then show "grows (heap s) (heap (set_block s' this ((heap s' this)\<lparr>targetX := targetX (heap s' this) - 1, value' := value' (heap s' this) * 2\<rparr>)))
      \<and> board (set_block s' this ((heap s' this)\<lparr>targetX := targetX (heap s' this) - 1, value' := value' (heap s' this) * 2\<rparr>)) = board s
      \<and> fresh (set_block s' this ((heap s' this)\<lparr>targetX := targetX (heap s' this) - 1, value' := value' (heap s' this) * 2\<rparr>)) = fresh s"
    using grows_trans [OF _ grows_merge] by (simp add: set_block_def)
qed

lemma moveRight_while_frame:
  "grows (heap s) (heap (fst (moveRight_while s this)))
   \<and> board (fst (moveRight_while s this)) = board s
   \<and> fresh (fst (moveRight_while s this)) = fresh s"
proof (rule moveRight_while_pres
    [where P = "\<lambda>s'::world. grows (heap s) (heap s') \<and> board s' = board s \<and> fresh s' = fresh s"])
  show "grows (heap s) (heap s) \<and> board s = board s \<and> fresh s = fresh s"
    by (simp add: grows_refl)
next
  fix s' :: world
  assume "grows (heap s) (heap s') \<and> board s' = board s \<and> fresh s' = fresh s"
  then show "grows (heap s) (heap (set_block s' this ((heap s' this)\<lparr>targetX := targetX (heap s' this) + 1\<rparr>)))
      \<and> board (set_block s' this ((heap s' this)\<lparr>targetX := targetX (heap s' this) + 1\<rparr>)) = board s
      \<and> fresh (set_block s' this ((heap s' this)\<lparr>targetX := targetX (heap s' this) + 1\<rparr>)) = fresh s"
    using grows_trans [OF _ grows_slide] by (simp add: set_block_def)
next
  fix s' :: world
  assume "grows (heap s) (heap s') \<and> board s' = board s \<and> fresh s' = fresh s"
  then show "grows (heap s) (heap (set_block s' this ((heap s' this)\<lparr>targetX := targetX (heap s' this) + 1, value' := value' (heap s' this) * 2\<rparr>)))
      \<and> board (set_block s' this ((heap s' this)\<lparr>targetX := targetX (heap s' this) + 1, value' := value' (heap s' this) * 2\<rparr>)) = board s
      \<and> fresh (set_block s' this ((heap s' this)\<lparr>targetX := targetX (heap s' this) + 1, value' := value' (heap s' this) * 2\<rparr>)) = fresh s"
    using grows_trans [OF _ grows_merge] by (simp add: set_block_def)
qed

subsection \<open>Writing a cell\<close>

lemma js_set_elems: "set (js_set xs i v) \<subseteq> insert v (insert None (set xs))"
proof -
  have "set (xs[nat i := v]) \<subseteq> insert v (set xs)"
    by (rule set_update_subset_insert)
  then show ?thesis
    by (auto simp: js_set_def)
qed

lemma cell_set_dims:
  "cols (fst (cell_set b x y v)) = cols b \<and> rows (fst (cell_set b x y v)) = rows b"
  by (simp add: cell_set_def split: option.splits)

lemma cell_set_tiles:
  "tiles (fst (cell_set b x y v)) \<subseteq> tiles b \<union> set_option v"
proof
  fix r
  assume r: "r \<in> tiles (fst (cell_set b x y v))"
  show "r \<in> tiles b \<union> set_option v"
  proof (cases "js_get (blocks b) x")
    case None
    then show ?thesis using r by (simp add: cell_set_def)
  next
    case (Some col0)
    then have col0: "col0 \<in> set (blocks b)"
      by (auto simp: js_get_def split: if_splits)
    from r Some obtain col where col: "col \<in> set ((blocks b)[nat x := js_set col0 y v])"
      and mem: "Some r \<in> set col"
      by (auto simp: cell_set_def tiles_def)
    from col have "col = js_set col0 y v \<or> col \<in> set (blocks b)"
      using set_update_subset_insert [of "blocks b" "nat x" "js_set col0 y v"] by auto
    then show ?thesis
    proof
      assume "col = js_set col0 y v"
      with mem have "Some r = v \<or> Some r \<in> set col0"
        using js_set_elems [of col0 y v] by auto
      with col0 show ?thesis by (auto simp: tiles_def)
    next
      assume "col \<in> set (blocks b)"
      with mem show ?thesis by (auto simp: tiles_def)
    qed
  qed
qed

lemma Board_block_set_dims:
  "cols (fst (Board_block_set b x y r)) = cols b \<and> rows (fst (Board_block_set b x y r)) = rows b"
  by (simp add: Board_block_set_def cell_set_dims split: option.splits)

lemma Board_block_set_tiles:
  "tiles (fst (Board_block_set b x y r)) \<subseteq> insert r (tiles b)"
  using cell_set_tiles [of b x y "Some r"]
  by (auto simp: Board_block_set_def split: option.splits)

lemma cell_tiles:
  assumes "cell b x y = Inr (Some r)"
  shows "r \<in> tiles b"
proof -
  from assms have x: "nat x < length (blocks b)" and y: "nat y < length (blocks b ! nat x)"
    and c: "blocks b ! nat x ! nat y = Some r"
    by (auto simp: cell_def js_get_def split: option.splits if_splits)
  from x have "blocks b ! nat x \<in> set (blocks b)" by (rule nth_mem)
  moreover from y c have "Some r \<in> set (blocks b ! nat x)" by (metis nth_mem)
  ultimately show ?thesis by (auto simp: tiles_def)
qed

subsection \<open>The frame of a move\<close>

lemma evolves_refl: "evolves s s"
  by (simp add: evolves_def grows_refl)

lemma evolves_trans: "evolves s1 s2 \<Longrightarrow> evolves s2 s3 \<Longrightarrow> evolves s1 s3"
  unfolding evolves_def using grows_trans by auto

lemma Block_moveLeft_frame:
  "grows (heap s) (heap (fst (Block_moveLeft s this)))
   \<and> cols (board (fst (Block_moveLeft s this))) = cols (board s)
   \<and> rows (board (fst (Block_moveLeft s this))) = rows (board s)
   \<and> tiles (board (fst (Block_moveLeft s this))) \<subseteq> insert this (tiles (board s))
   \<and> fresh (fst (Block_moveLeft s this)) = fresh s"
proof (cases "moveLeft_while s this")
  case (Pair s1 err)
  have f: "grows (heap s) (heap s1) \<and> board s1 = board s \<and> fresh s1 = fresh s"
    using moveLeft_while_frame [of s this] Pair by simp
  show ?thesis
  proof (cases err)
    case (Some e)
    with Pair f show ?thesis by (auto simp: Block_moveLeft_def)
  next
    case None
    with Pair f show ?thesis
      using Board_block_set_dims [of "board s" "targetX (heap s1 this)" "targetY (heap s1 this)" this]
        Board_block_set_tiles [of "board s" "targetX (heap s1 this)" "targetY (heap s1 this)" this]
      by (auto simp: Block_moveLeft_def split: prod.splits)
  qed
qed

lemma Block_moveRight_frame:
  "grows (heap s) (heap (fst (Block_moveRight s this)))
   \<and> cols (board (fst (Block_moveRight s this))) = cols (board s)
   \<and> rows (board (fst (Block_moveRight s this))) = rows (board s)
   \<and> tiles (board (fst (Block_moveRight s this))) \<subseteq> insert this (tiles (board s))
   \<and> fresh (fst (Block_moveRight s this)) = fresh s"
proof (cases "moveRight_while s this")
  case (Pair s1 err)
  have f: "grows (heap s) (heap s1) \<and> board s1 = board s \<and> fresh s1 = fresh s"
    using moveRight_while_frame [of s this] Pair by simp
  show ?thesis
  proof (cases err)
    case (Some e)
    with Pair f show ?thesis by (auto simp: Block_moveRight_def)
  next
    case None
    with Pair f show ?thesis
      using Board_block_set_dims [of "board s" "targetX (heap s1 this)" "targetY (heap s1 this)" this]
        Board_block_set_tiles [of "board s" "targetX (heap s1 this)" "targetY (heap s1 this)" this]
      by (auto simp: Block_moveRight_def split: prod.splits)
  qed
qed

lemma on_cell_evolves:
  assumes "\<And>s this. this \<in> tiles (board s) \<Longrightarrow> evolves s (fst (m s this))"
  shows "evolves s (fst (on_cell m x y s))"
proof (cases "cell (board s) x y")
  case (Inl e)
  then show ?thesis by (simp add: on_cell_def evolves_refl)
next
  case (Inr c)
  show ?thesis
  proof (cases c)
    case None
    with Inr show ?thesis by (simp add: on_cell_def evolves_refl)
  next
    case (Some r)
    with Inr have "r \<in> tiles (board s)" by (simp add: cell_tiles)
    then have "evolves s (fst (m s r))" by (rule assms)
    with Inr Some show ?thesis by (simp add: on_cell_def)
  qed
qed

lemma sweep_evolves:
  assumes "\<And>s this. this \<in> tiles (board s) \<Longrightarrow> evolves s (fst (m s this))"
  shows "evolves s (fst (for_loop xs (\<lambda>x. for_loop ys (\<lambda>y. on_cell m x y)) s))"
proof (rule for_loop_pres [where P = "evolves s"])
  show "evolves s s" by (rule evolves_refl)
next
  fix x s1
  assume s1: "evolves s s1"
  have "evolves s1 (fst (for_loop ys (\<lambda>y. on_cell m x y) s1))"
  proof (rule for_loop_pres [where P = "evolves s1"])
    show "evolves s1 s1" by (rule evolves_refl)
  next
    fix y s2
    assume "evolves s1 s2"
    moreover have "evolves s2 (fst (on_cell m x y s2))"
      by (rule on_cell_evolves) (rule assms)
    ultimately show "evolves s1 (fst (on_cell m x y s2))"
      by (rule evolves_trans)
  qed
  with s1 show "evolves s (fst (for_loop ys (\<lambda>y. on_cell m x y) s1))"
    by (rule evolves_trans)
qed

lemma Block_moveLeft_evolves: "this \<in> tiles (board s) \<Longrightarrow> evolves s (fst (Block_moveLeft s this))"
  using Block_moveLeft_frame [of s this] by (auto simp: evolves_def)

lemma Block_moveRight_evolves: "this \<in> tiles (board s) \<Longrightarrow> evolves s (fst (Block_moveRight s this))"
  using Block_moveRight_frame [of s this] by (auto simp: evolves_def)

lemma Board_moveLeft_evolves: "evolves s (fst (Board_moveLeft s))"
  unfolding Board_moveLeft_def by (rule sweep_evolves) (rule Block_moveLeft_evolves)

lemma Board_moveRight_evolves: "evolves s (fst (Board_moveRight s))"
  unfolding Board_moveRight_def by (rule sweep_evolves) (rule Block_moveRight_evolves)


subsection \<open>Cells and tiles after a move\<close>

text \<open>
  C1. After a move every occupied cell should hold the one tile whose own
  position is that cell, and every tile should be held by exactly one cell; the
  cell a tile moved out of should no longer refer to it.

  \<^verbatim>\<open>Block.moveLeft\<close> stores the block in the cell it arrives at and never
  empties the cell it left. On a board with a 2 at column 1 and a 4 at column 3
  of row 0, \<^verbatim>\<open>Board.moveLeft\<close> returns normally with the cells (0, 0) and (1, 0)
  both referring to the first tile, whose recorded column \<open>gridX\<close> is still 1,
  and the cells (2, 0) and (3, 0) both referring to the second.
\<close>

theorem C1_moveLeft_keeps_stale_reference:
  "row_refs (row_world [0, 2, 0, 4]) = [None, Some 1, None, Some 3]
   \<and> snd (Board_moveLeft (row_world [0, 2, 0, 4])) = None
   \<and> cell (board (fst (Board_moveLeft (row_world [0, 2, 0, 4])))) 0 0 = Inr (Some 1)
   \<and> cell (board (fst (Board_moveLeft (row_world [0, 2, 0, 4])))) 1 0 = Inr (Some 1)
   \<and> cell (board (fst (Board_moveLeft (row_world [0, 2, 0, 4])))) 2 0 = Inr (Some 3)
   \<and> cell (board (fst (Board_moveLeft (row_world [0, 2, 0, 4])))) 3 0 = Inr (Some 3)
   \<and> gridX (heap (fst (Board_moveLeft (row_world [0, 2, 0, 4]))) 1) = 1
   \<and> targetX (heap (fst (Board_moveLeft (row_world [0, 2, 0, 4]))) 1) = 0
   \<and> gridX (heap (fst (Board_moveLeft (row_world [0, 2, 0, 4]))) 3) = 3
   \<and> targetX (heap (fst (Board_moveLeft (row_world [0, 2, 0, 4]))) 3) = 2"
  by code_simp

text \<open>
  C3, as claimed: the row 2, empty, 2, 4 moved left becomes 4, 4, empty, empty.

  In the code the tile of column 2 merges into column 0 and its old cell keeps
  referring to it; the 4 of column 3 then finds that cell holding an equal value,
  merges with it and becomes 8, and slides on to column 1. The cells of the row
  end up referring to the tiles 2, 3, 2, 3, whose values read 4, 8, 4, 8.
\<close>

theorem C3_row_2_0_2_4_left:
  "row_values (row_world [2, 0, 2, 4]) = [Some 2, None, Some 2, Some 4]
   \<and> snd (Board_moveLeft (row_world [2, 0, 2, 4])) = None
   \<and> row_values (fst (Board_moveLeft (row_world [2, 0, 2, 4]))) = [Some 4, Some 8, Some 4, Some 8]
   \<and> row_refs (fst (Board_moveLeft (row_world [2, 0, 2, 4]))) = [Some 2, Some 3, Some 2, Some 3]
   \<and> row_values (fst (Board_moveLeft (row_world [2, 0, 2, 4]))) \<noteq> [Some 4, Some 4, None, None]"
  by code_simp

text \<open>
  C3, amended: on the row 2, empty, 2, 4 the move to the left merges the two
  2's into a 4 at the wall (the moving 2 ends with the value 4 and the target
  column 0), and the original 4 merges in the same sweep as well: it ends with
  the value 8.
\<close>

theorem C3_both_merge_in_one_sweep:
  "snd (Board_moveLeft (row_world [2, 0, 2, 4])) = None
   \<and> value' (heap (fst (Board_moveLeft (row_world [2, 0, 2, 4]))) 2) = 4
   \<and> targetX (heap (fst (Board_moveLeft (row_world [2, 0, 2, 4]))) 2) = 0
   \<and> value' (heap (fst (Board_moveLeft (row_world [2, 0, 2, 4]))) 3) = 8"
  by code_simp

subsection \<open>The move to the left, applied twice\<close>

text \<open>
  On a settled board \<^verbatim>\<open>Board.moveLeft\<close> returns without an error and leaves a
  state that a second \<^verbatim>\<open>Board.moveLeft\<close> does not change. The sweep starts at
  the wall: when a tile is visited, the cells between it and the wall are final.
\<close>

lemma shaped_cell:
  assumes "shaped b" and "inside b c r"
  shows "cell b c r = Inr (blocks b ! nat c ! nat r)"
    and "nat c < length (blocks b)" and "nat r < length (blocks b ! nat c)"
proof -
  from assms show x: "nat c < length (blocks b)"
    by (simp add: shaped_def inside_def)
  then have "blocks b ! nat c \<in> set (blocks b)" by (rule nth_mem)
  with assms show y: "nat r < length (blocks b ! nat c)"
    by (simp add: shaped_def inside_def)
  from x y assms(2) show "cell b c r = Inr (blocks b ! nat c ! nat r)"
    by (simp add: cell_def js_get_def inside_def)
qed

lemma Board_block_inside:
  "inside b c r \<Longrightarrow> Board_block b c r = cell b c r"
  by (simp add: Board_block_def assertRange_def inside_def)

lemma cell_set_shaped:
  assumes "shaped b" and "inside b x y"
  shows "shaped (fst (cell_set b x y v))" and "snd (cell_set b x y v) = None"
    and "blocks (fst (cell_set b x y v)) = (blocks b)[nat x := (blocks b ! nat x)[nat y := v]]"
proof -
  note c = shaped_cell(2,3) [OF assms]
  from c assms(2) have g: "js_get (blocks b) x = Some (blocks b ! nat x)"
    by (simp add: js_get_def inside_def)
  from c assms(2) have j: "js_set (blocks b ! nat x) y v = (blocks b ! nat x)[nat y := v]"
    by (simp add: js_set_def inside_def)
  from g j show "snd (cell_set b x y v) = None"
    and b: "blocks (fst (cell_set b x y v)) = (blocks b)[nat x := (blocks b ! nat x)[nat y := v]]"
    by (simp_all add: cell_set_def)
  have "cols (fst (cell_set b x y v)) = cols b" "rows (fst (cell_set b x y v)) = rows b"
    by (simp_all add: cell_set_dims)
  moreover have "\<forall>col \<in> set ((blocks b)[nat x := (blocks b ! nat x)[nat y := v]]). length col = nat (rows b)"
  proof
    fix col
    assume "col \<in> set ((blocks b)[nat x := (blocks b ! nat x)[nat y := v]])"
    then have "col = (blocks b ! nat x)[nat y := v] \<or> col \<in> set (blocks b)"
      using set_update_subset_insert [of "blocks b" "nat x"] by auto
    moreover have "blocks b ! nat x \<in> set (blocks b)" using c(1) by (rule nth_mem)
    ultimately show "length col = nat (rows b)"
      using assms(1) by (auto simp: shaped_def)
  qed
  ultimately show "shaped (fst (cell_set b x y v))"
    using assms(1) b by (simp add: shaped_def)
qed

lemma cell_set_cell:
  assumes "shaped b" and "inside b x y" and "inside b c r"
  shows "cell (fst (cell_set b x y v)) c r = (if c = x \<and> r = y then Inr v else cell b c r)"
proof -
  have i: "inside (fst (cell_set b x y v)) c r"
    using assms(3) by (simp add: inside_def cell_set_dims)
  note s = cell_set_shaped [OF assms(1,2), of v]
  note a = shaped_cell [OF assms(1,2)] and b = shaped_cell [OF assms(1,3)]
  have "blocks (fst (cell_set b x y v)) ! nat c ! nat r
      = (if c = x \<and> r = y then v else blocks b ! nat c ! nat r)"
    using a b assms(2,3) by (auto simp: s(3) inside_def nth_list_update)
  then show ?thesis
    using shaped_cell(1) [OF s(1) i] b(1) by simp
qed

lemma cell_set_same:
  assumes "shaped b" and "inside b x y" and "cell b x y = Inr v"
  shows "cell_set b x y v = (b, None)"
proof -
  note a = shaped_cell [OF assms(1,2)]
  note s = cell_set_shaped [OF assms(1,2), of v]
  from a assms(3) have "blocks b ! nat x ! nat y = v" by simp
  then have "(blocks b)[nat x := (blocks b ! nat x)[nat y := v]] = blocks b"
    by (metis list_update_id)
  with s(3) have "blocks (fst (cell_set b x y v)) = blocks b" by simp
  moreover have "fst (cell_set b x y v) = b\<lparr>blocks := blocks (fst (cell_set b x y v))\<rparr>"
    using a assms(2) by (simp add: cell_set_def js_get_def inside_def)
  ultimately have "fst (cell_set b x y v) = b" by simp
  with s(2) show ?thesis by (simp add: prod_eq_iff)
qed

lemma stuck_while:
  assumes "stuck s q"
  shows "moveLeft_while s q = (s, None)"
proof (cases "0 < targetX (heap s q)")
  case False
  then show ?thesis by (subst moveLeft_while.simps) simp
next
  case True
  with assms obtain p where p: "cell (board s) (targetX (heap s q) - 1) (targetY (heap s q)) = Inr (Some p)"
    and v: "value' (heap s p) \<noteq> value' (heap s q)"
    by (auto simp: stuck_def)
  from assms True have "inside (board s) (targetX (heap s q) - 1) (gridY (heap s q))"
    by (auto simp: stuck_def inside_def)
  then have "Board_block (board s) (targetX (heap s q) - 1) (gridY (heap s q)) = Inr (Some p)"
    using p assms by (simp add: Board_block_inside stuck_def)
  with True v show ?thesis by (subst moveLeft_while.simps) simp
qed

lemma stuck_moveLeft:
  assumes "shaped (board s)" and "stuck s q"
  shows "Block_moveLeft s q = (s, None)"
proof -
  from assms(2) have i: "inside (board s) (targetX (heap s q)) (targetY (heap s q))"
    and c: "cell (board s) (targetX (heap s q)) (targetY (heap s q)) = Inr (Some q)"
    by (simp_all add: stuck_def)
  from i have "Board_block_set (board s) (targetX (heap s q)) (targetY (heap s q)) q
      = cell_set (board s) (targetX (heap s q)) (targetY (heap s q)) (Some q)"
    by (simp add: Board_block_set_def assertRange_def inside_def)
  also have "\<dots> = (board s, None)"
    using assms(1) i c by (rule cell_set_same)
  finally show ?thesis
    by (simp add: Block_moveLeft_def stuck_while [OF assms(2)])
qed

lemma for_loop_skip:
  assumes "\<And>i. i \<in> set is \<Longrightarrow> body i s = (s, None)"
  shows "for_loop is body s = (s, None)"
  using assms by (induction "is") simp_all

lemma all_stuck_moveLeft:
  assumes "shaped (board s)"
    and "\<And>c r q. inside (board s) c r \<Longrightarrow> cell (board s) c r = Inr (Some q) \<Longrightarrow> stuck s q"
  shows "Board_moveLeft s = (s, None)"
  unfolding Board_moveLeft_def
proof (rule for_loop_skip)
  fix x
  assume x: "x \<in> set [1 .. cols (board s) - 1]"
  show "for_loop [0 .. rows (board s) - 1] (\<lambda>y. on_cell Block_moveLeft x y) s = (s, None)"
  proof (rule for_loop_skip)
    fix y
    assume y: "y \<in> set [0 .. rows (board s) - 1]"
    from x y have i: "inside (board s) x y" by (simp add: inside_def)
    show "on_cell Block_moveLeft x y s = (s, None)"
    proof (cases "blocks (board s) ! nat x ! nat y")
      case None
      then show ?thesis using shaped_cell(1) [OF assms(1) i] by (simp add: on_cell_def)
    next
      case (Some q)
      then have c: "cell (board s) x y = Inr (Some q)"
        using shaped_cell(1) [OF assms(1) i] by simp
      then have "stuck s q" using assms(2) i by blast
      then show ?thesis using c stuck_moveLeft [OF assms(1)] by (simp add: on_cell_def)
    qed
  qed
qed

lemma moved_simps:
  "board (moved s d p v) = board s"
  "fresh (moved s d p v) = fresh s"
  "targetX (heap (moved s d p v) d) = p"
  "value' (heap (moved s d p v) d) = v"
  "gridY (heap (moved s d p v) d) = gridY (heap s d)"
  "targetY (heap (moved s d p v) d) = targetY (heap s d)"
  "q \<noteq> d \<Longrightarrow> heap (moved s d p v) q = heap s q"
  by (simp_all add: moved_def set_block_def)

lemma Block_update_order:
  "(b::Block)\<lparr>value' := v, targetX := p\<rparr> = b\<lparr>targetX := p, value' := v\<rparr>"
  by (rule Block.equality) simp_all

lemma moved_step:
  "set_block (moved s d p v) d ((heap (moved s d p v) d)\<lparr>targetX := p'\<rparr>) = moved s d p' v"
  "set_block (moved s d p v) d ((heap (moved s d p v) d)\<lparr>targetX := p', value' := v'\<rparr>) = moved s d p' v'"
  by (simp_all add: moved_def set_block_def Block_update_order)

lemma sliding_empty:
  assumes "sliding s x y p v" and "0 < p" and "cell (board s) (p - 1) y = Inr None"
  shows "sliding s x y (p - 1) v"
  unfolding sliding_def
proof (intro conjI allI impI)
  show "0 \<le> p - 1" "p - 1 \<le> x" "0 < v" using assms by (simp_all add: sliding_def)
next
  fix c q
  assume a: "p - 1 \<le> c \<and> c < x \<and> cell (board s) c y = Inr (Some q)"
  with assms(3) have "c \<noteq> p - 1" by auto
  with a have "p \<le> c" by simp
  with a assms(1) show "value' (heap s q) < v" unfolding sliding_def by blast
next
  fix c c' q
  assume a: "p - 1 \<le> c \<and> c < x \<and> p - 1 \<le> c' \<and> c' < x
      \<and> cell (board s) c y = Inr (Some q) \<and> cell (board s) c' y = Inr (Some q)"
  with assms(3) have "c \<noteq> p - 1" "c' \<noteq> p - 1" by auto
  with a have "p \<le> c" "p \<le> c'" by simp_all
  with a assms(1) show "c = c'" unfolding sliding_def by blast
qed

lemma sliding_merge:
  assumes "sliding s x y p v" and "0 < p" and "cell (board s) (p - 1) y = Inr (Some t)"
    and "value' (heap s t) = v"
  shows "sliding s x y (p - 1) (v * 2)"
  unfolding sliding_def
proof (intro conjI allI impI)
  show "0 \<le> p - 1" "p - 1 \<le> x" "0 < v * 2" using assms by (simp_all add: sliding_def)
next
  fix c q
  assume a: "p - 1 \<le> c \<and> c < x \<and> cell (board s) c y = Inr (Some q)"
  have v: "0 < v" using assms(1) by (simp add: sliding_def)
  show "value' (heap s q) < v * 2"
  proof (cases "c = p - 1")
    case True
    with a assms(3,4) v show ?thesis by simp
  next
    case False
    with a have "p \<le> c" by simp
    with a assms(1) have "value' (heap s q) < v" unfolding sliding_def by blast
    with v show ?thesis by simp
  qed
next
  fix c c' q
  assume a: "p - 1 \<le> c \<and> c < x \<and> p - 1 \<le> c' \<and> c' < x
      \<and> cell (board s) c y = Inr (Some q) \<and> cell (board s) c' y = Inr (Some q)"
  have less: "\<And>c q. p \<le> c \<Longrightarrow> c < x \<Longrightarrow> cell (board s) c y = Inr (Some q) \<Longrightarrow> value' (heap s q) < v"
    using assms(1) unfolding sliding_def by blast
  show "c = c'"
  proof (cases "c = p - 1")
    case True
    show ?thesis
    proof (rule ccontr)
      assume "c \<noteq> c'"
      with True a have "p \<le> c'" by simp
      moreover from True a assms(3) have "q = t" by simp
      ultimately show False using less [of c' q] a assms(4) by simp
    qed
  next
    case False
    then have c: "p \<le> c" using a by simp
    show ?thesis
    proof (cases "c' = p - 1")
      case True
      with a assms(3) have "q = t" by simp
      with less [OF c] a assms(4) show ?thesis by simp
    next
      case False
      with a have "p \<le> c'" by simp
      with c a assms(1) show ?thesis unfolding sliding_def by blast
    qed
  qed
qed

lemma slide_loop:
  assumes sh: "shaped (board s)" and ins: "inside (board s) x y" and row: "gridY (heap s d) = y"
    and notd: "\<And>c. 0 \<le> c \<Longrightarrow> c < x \<Longrightarrow> cell (board s) c y \<noteq> Inr (Some d)"
  shows "sliding s x y p v \<Longrightarrow>
     \<exists>p' v'. moveLeft_while (moved s d p v) d = (moved s d p' v', None)
       \<and> sliding s x y p' v'
       \<and> (p' = 0 \<or> (\<exists>q. cell (board s) (p' - 1) y = Inr (Some q) \<and> value' (heap s q) \<noteq> v'))"
proof (induction "nat p" arbitrary: p v rule: less_induct)
  case less
  note sl = less.prems
  then have p0: "0 \<le> p" and px: "p \<le> x" by (simp_all add: sliding_def)
  show ?case
  proof (cases "0 < p")
    case False
    with p0 have "p = 0" by simp
    moreover from False have "moveLeft_while (moved s d p v) d = (moved s d p v, None)"
      by (subst moveLeft_while.simps) (simp add: moved_simps)
    ultimately show ?thesis using sl by blast
  next
    case True
    with px ins have i: "inside (board s) (p - 1) y" by (simp add: inside_def)
    have bb: "Board_block (board (moved s d p v)) (targetX (heap (moved s d p v) d) - 1)
        (gridY (heap (moved s d p v) d)) = cell (board s) (p - 1) y"
      using i row by (simp add: moved_simps Board_block_inside)
    show ?thesis
    proof (cases "blocks (board s) ! nat (p - 1) ! nat y")
      case None
      then have c: "cell (board s) (p - 1) y = Inr None"
        using shaped_cell(1) [OF sh i] by simp
      have "moveLeft_while (moved s d p v) d = moveLeft_while (moved s d (p - 1) v) d"
        using True bb c by (subst moveLeft_while.simps) (simp add: moved_simps moved_step)
      moreover have "nat (p - 1) < nat p" using True by simp
      ultimately show ?thesis
        using less.hyps [OF _ sliding_empty [OF sl True c]] by simp
    next
      case (Some t)
      then have c: "cell (board s) (p - 1) y = Inr (Some t)"
        using shaped_cell(1) [OF sh i] by simp
      have "t \<noteq> d" using notd [of "p - 1"] c True px by auto
      then have tv: "value' (heap (moved s d p v) t) = value' (heap s t)"
        by (simp add: moved_simps)
      show ?thesis
      proof (cases "value' (heap s t) = v")
        case True
        have "moveLeft_while (moved s d p v) d = moveLeft_while (moved s d (p - 1) (v * 2)) d"
          using \<open>0 < p\<close> bb c tv True
          by (subst moveLeft_while.simps) (simp add: moved_simps moved_step)
        moreover have "nat (p - 1) < nat p" using \<open>0 < p\<close> by simp
        ultimately show ?thesis
          using less.hyps [OF _ sliding_merge [OF sl \<open>0 < p\<close> c True]] by simp
      next
        case False
        have "moveLeft_while (moved s d p v) d = (moved s d p v, None)"
          using \<open>0 < p\<close> bb c tv False
          by (subst moveLeft_while.simps) (simp add: moved_simps)
        with sl c False show ?thesis by blast
      qed
    qed
  qed
qed

lemma moved_id:
  "targetX (heap s d) = p \<Longrightarrow> value' (heap s d) = v \<Longrightarrow> moved s d p v = s"
  by (auto simp: moved_def set_block_def)

lemma sweep_inv_cell:
  assumes "sweep_inv x y s" and "inside (board s) c r" and "cell (board s) c r = Inr (Some q)"
  shows "0 < value' (heap s q)" and "gridY (heap s q) = r" and "targetY (heap s q) = r"
    and "done_cell x y c r \<Longrightarrow> targetX (heap s q) \<le> c"
    and "done_cell x y c r \<Longrightarrow> stuck s q"
    and "\<not> done_cell x y c r \<Longrightarrow> targetX (heap s q) = c"
  using assms unfolding sweep_inv_def by (auto split: if_splits)

lemma moveLeft_step_empty:
  assumes "sweep_inv x y s" and "cell (board s) x y = Inr None"
  shows "sweep_inv x (y + 1) s"
  unfolding sweep_inv_def
proof (intro conjI allI impI)
  show "shaped (board s)" using assms(1) by (simp add: sweep_inv_def)
next
  fix c r q
  assume a: "inside (board s) c r \<and> cell (board s) c r = Inr (Some q)"
  with assms(2) have ne: "\<not> (c = x \<and> r = y)" by auto
  then have d: "done_cell x (y + 1) c r \<longleftrightarrow> done_cell x y c r"
    by (auto simp: done_cell_def)
  from a have i: "inside (board s) c r" and c: "cell (board s) c r = Inr (Some q)" by simp_all
  note f = sweep_inv_cell [OF assms(1) i c]
  show "0 < value' (heap s q)" "gridY (heap s q) = r" "targetY (heap s q) = r"
    by (rule f)+
  show "if done_cell x (y + 1) c r then targetX (heap s q) \<le> c \<and> stuck s q
        else targetX (heap s q) = c"
    using f(4,5,6) d by simp
qed

lemma moveLeft_step_tile:
  assumes inv: "sweep_inv x y s" and ins: "inside (board s) x y"
    and cd: "cell (board s) x y = Inr (Some d)"
  shows "\<exists>s'. Block_moveLeft s d = (s', None) \<and> sweep_inv x (y + 1) s'
     \<and> cols (board s') = cols (board s) \<and> rows (board s') = rows (board s)"
proof -
  have sh: "shaped (board s)" using inv by (simp add: sweep_inv_def)
  have pend: "\<not> done_cell x y x y" by (simp add: done_cell_def)
  note fd = sweep_inv_cell [OF inv ins cd]
  have dv: "0 < value' (heap s d)" and dy: "gridY (heap s d) = y" and dty: "targetY (heap s d) = y"
    and dx: "targetX (heap s d) = x"
    using fd pend by simp_all
  \<comment> \<open>the tile is held by its own cell only\<close>
  have only: "c = x \<and> r = y" if "inside (board s) c r" "cell (board s) c r = Inr (Some d)" for c r
  proof -
    note f = sweep_inv_cell [OF inv that]
    from f(2) dy have r: "r = y" by simp
    show ?thesis
    proof (cases "done_cell x y c r")
      case True
      with f(4) dx have "x \<le> c" by simp
      with True r show ?thesis by (simp add: done_cell_def)
    next
      case False
      with f(6) dx r show ?thesis by simp
    qed
  qed
  have notd: "cell (board s) c y \<noteq> Inr (Some d)" if "0 \<le> c" "c < x" for c
  proof
    assume "cell (board s) c y = Inr (Some d)"
    moreover have "inside (board s) c y" using that ins by (simp add: inside_def)
    ultimately have "c = x" using only by blast
    with that show False by simp
  qed
  have start: "sliding s x y x (value' (heap s d))"
    using ins dv by (simp add: sliding_def inside_def)
  from slide_loop [OF sh ins dy notd start]
  obtain p v where loop: "moveLeft_while (moved s d x (value' (heap s d))) d = (moved s d p v, None)"
    and sl: "sliding s x y p v"
    and stop: "p = 0 \<or> (\<exists>q. cell (board s) (p - 1) y = Inr (Some q) \<and> value' (heap s q) \<noteq> v)"
    by blast
  have "moved s d x (value' (heap s d)) = s" using dx by (rule moved_id) simp
  with loop have loop': "moveLeft_while s d = (moved s d p v, None)" by simp
  from sl have p0: "0 \<le> p" and px: "p \<le> x" and v0: "0 < v" by (simp_all add: sliding_def)
  have less: "value' (heap s q) < v" if "p \<le> c" "c < x" "cell (board s) c y = Inr (Some q)" for c q
    using sl that unfolding sliding_def by blast
  have nodup: "c = c'" if "p \<le> c" "c < x" "p \<le> c'" "c' < x"
    "cell (board s) c y = Inr (Some q)" "cell (board s) c' y = Inr (Some q)" for c c' q
    using sl that unfolding sliding_def by blast
  have ip: "inside (board s) p y" using ins p0 px by (simp add: inside_def)
  define b' where "b' = fst (cell_set (board s) p y (Some d))"
  define s' where "s' = (moved s d p v)\<lparr>board := b'\<rparr>"
  have set: "Board_block_set (board s) p y d = (b', None)"
    using ip cell_set_shaped(2) [OF sh ip, of "Some d"]
    by (simp add: Board_block_set_def assertRange_def inside_def b'_def prod_eq_iff)
  have res: "Block_moveLeft s d = (s', None)"
    using loop' set dty by (simp add: Block_moveLeft_def moved_simps s'_def)
  have sh': "shaped (board s')"
    using cell_set_shaped(1) [OF sh ip, of "Some d"] by (simp add: s'_def b'_def)
  have dims: "cols (board s') = cols (board s)" "rows (board s') = rows (board s)"
    by (simp_all add: s'_def b'_def cell_set_dims)
  have ins': "inside (board s') c r \<longleftrightarrow> inside (board s) c r" for c r
    by (simp add: inside_def dims)
  have cell': "cell (board s') c r = (if c = p \<and> r = y then Inr (Some d) else cell (board s) c r)"
    if "inside (board s) c r" for c r
    using cell_set_cell [OF sh ip that, of "Some d"] by (simp add: s'_def b'_def)
  have heap_d: "targetX (heap s' d) = p" "value' (heap s' d) = v"
    "gridY (heap s' d) = y" "targetY (heap s' d) = y"
    using dy dty by (simp_all add: s'_def moved_simps)
  have heap_q: "heap s' q = heap s q" if "q \<noteq> d" for q
    using that by (simp add: s'_def moved_simps)
  \<comment> \<open>the moved tile is stuck where it arrived\<close>
  have stuck_d: "stuck s' d"
  proof -
    have "p = 0 \<or> (\<exists>q. cell (board s') (p - 1) y = Inr (Some q) \<and> value' (heap s' q) \<noteq> v)"
    proof (cases "p = 0")
      case False
      with stop obtain q where q: "cell (board s) (p - 1) y = Inr (Some q)"
        and qv: "value' (heap s q) \<noteq> v" by blast
      from False p0 px have "0 \<le> p - 1" "p - 1 < x" by simp_all
      then have "q \<noteq> d" using notd q by blast
      moreover have "inside (board s) (p - 1) y" using ip False p0 by (simp add: inside_def)
      ultimately show ?thesis using q qv cell' [of "p - 1" y] heap_q by auto
    qed simp
    then show ?thesis
      using ip cell' [OF ip] by (simp add: stuck_def heap_d ins')
  qed
  \<comment> \<open>the tiles that were stuck stay stuck\<close>
  have stuck_q: "stuck s' q"
    if q: "q \<noteq> d" and i: "inside (board s) c r" and c: "cell (board s) c r = Inr (Some q)"
      and dn: "done_cell x y c r" and ne: "\<not> (c = p \<and> r = y)" for q c r
  proof -
    note f = sweep_inv_cell [OF inv i c]
    have tc: "targetX (heap s q) \<le> c" and st: "stuck s q" using f(4,5) dn by simp_all
    have ty: "targetY (heap s q) = r" by (rule f(3))
    from st ty have ih: "inside (board s) (targetX (heap s q)) r"
      and home: "cell (board s) (targetX (heap s q)) r = Inr (Some q)"
      and blocked: "targetX (heap s q) = 0
         \<or> (\<exists>t. cell (board s) (targetX (heap s q) - 1) r = Inr (Some t)
                \<and> value' (heap s t) \<noteq> value' (heap s q))"
      by (simp_all add: stuck_def)
    have cx: "c < x" if "r = y" using dn that by (simp add: done_cell_def)
    have home': "cell (board s') (targetX (heap s q)) r = Inr (Some q)"
    proof (cases "targetX (heap s q) = p \<and> r = y")
      case False
      then show ?thesis using cell' [OF ih] home by auto
    next
      case True
      then have "r = y" and tp: "targetX (heap s q) = p" by simp_all
      have "p \<noteq> x" using home True cd q by auto
      with px have "p < x" by simp
      have "c = p"
        using nodup [of c p q] tc tp cx [OF \<open>r = y\<close>] \<open>p < x\<close> c home \<open>r = y\<close> by simp
      with ne \<open>r = y\<close> show ?thesis by simp
    qed
    have blocked': "targetX (heap s q) = 0
         \<or> (\<exists>t. cell (board s') (targetX (heap s q) - 1) r = Inr (Some t)
                \<and> value' (heap s' t) \<noteq> value' (heap s q))"
    proof (cases "targetX (heap s q) = 0")
      case False
      with blocked obtain t where t: "cell (board s) (targetX (heap s q) - 1) r = Inr (Some t)"
        and tv: "value' (heap s t) \<noteq> value' (heap s q)" by blast
      from False ih have il: "inside (board s) (targetX (heap s q) - 1) r"
        by (simp add: inside_def)
      show ?thesis
      proof (cases "targetX (heap s q) - 1 = p \<and> r = y")
        case True
        then have "r = y" and tp: "targetX (heap s q) = p + 1" by simp_all
        have "p + 1 < x" using tc tp cx [OF \<open>r = y\<close>] by simp
        then have "value' (heap s q) < v"
          using less [of "p + 1" q] home tp \<open>r = y\<close> by simp
        then show ?thesis using cell' [OF il] True heap_d by auto
      next
        case False
        have "t \<noteq> d"
        proof
          assume "t = d"
          with t il only have "targetX (heap s q) - 1 = x" by blast
          moreover from dn have "c \<le> x" by (auto simp: done_cell_def)
          ultimately show False using tc by simp
        qed
        then show ?thesis using cell' [OF il] False t tv heap_q by auto
      qed
    qed simp
    show ?thesis
      using st home' blocked' ty by (simp add: stuck_def heap_q [OF q] ins')
  qed
  have "sweep_inv x (y + 1) s'"
    unfolding sweep_inv_def
  proof (rule conjI [OF sh'], intro allI impI)
    fix c r q
    assume a: "inside (board s') c r \<and> cell (board s') c r = Inr (Some q)"
    then have i: "inside (board s) c r" by (simp add: ins')
    from a have c': "cell (board s') c r = Inr (Some q)" by simp
    show "0 < value' (heap s' q) \<and> gridY (heap s' q) = r \<and> targetY (heap s' q) = r
       \<and> (if done_cell x (y + 1) c r then targetX (heap s' q) \<le> c \<and> stuck s' q
           else targetX (heap s' q) = c)"
    proof (cases "q = d")
      case True
      have at: "(c = p \<and> r = y) \<or> (c = x \<and> r = y)"
        using cell' [OF i] c' True only [OF i] by (auto split: if_splits)
      with px have "done_cell x (y + 1) c r" by (auto simp: done_cell_def)
      moreover from at px have "p \<le> c" by auto
      ultimately show ?thesis using True at heap_d v0 stuck_d by auto
    next
      case False
      have ne: "\<not> (c = p \<and> r = y)" using cell' [OF i] c' False by auto
      have c: "cell (board s) c r = Inr (Some q)"
        using cell' [OF i] c' ne by (auto split: if_splits)
      have "\<not> (c = x \<and> r = y)" using c cd False by auto
      then have dn: "done_cell x (y + 1) c r \<longleftrightarrow> done_cell x y c r"
        by (auto simp: done_cell_def)
      note f = sweep_inv_cell [OF inv i c]
      show ?thesis
      proof (cases "done_cell x y c r")
        case True
        with f dn stuck_q [OF False i c True ne] show ?thesis by (simp add: heap_q [OF False])
      next
        case False
        with f dn show ?thesis by (simp add: heap_q [OF \<open>q \<noteq> d\<close>])
      qed
    qed
  qed
  with res dims show ?thesis by blast
qed

lemma for_loop_upto:
  assumes step: "\<And>i s. a \<le> i \<Longrightarrow> i \<le> b \<Longrightarrow> I i s \<Longrightarrow> \<exists>s'. body i s = (s', None) \<and> I (i + 1) s'"
  shows "a \<le> b + 1 \<Longrightarrow> I a s \<Longrightarrow> \<exists>s'. for_loop [a .. b] body s = (s', None) \<and> I (b + 1) s'"
  using step
proof (induction "nat (b + 1 - a)" arbitrary: a s)
  case 0
  then have "a = b + 1" by simp
  then have "[a .. b] = []" by simp
  with 0 \<open>a = b + 1\<close> show ?case by simp
next
  case (Suc n)
  then have ab: "a \<le> b" by simp
  then have l: "[a .. b] = a # [a + 1 .. b]" by (simp add: upto_rec1)
  from Suc.prems(3) [OF _ ab Suc.prems(2)] obtain s1 where s1: "body a s = (s1, None)"
    and i1: "I (a + 1) s1" by auto
  have "n = nat (b + 1 - (a + 1))" using Suc.hyps(2) by simp
  moreover have "a + 1 \<le> b + 1" using ab by simp
  moreover have "\<And>i s. a + 1 \<le> i \<Longrightarrow> i \<le> b \<Longrightarrow> I i s \<Longrightarrow> \<exists>s'. body i s = (s', None) \<and> I (i + 1) s'"
    using Suc.prems(3) by simp
  ultimately obtain s' where "for_loop [a + 1 .. b] body s1 = (s', None)" and "I (b + 1) s'"
    using Suc.hyps(1) [of "a + 1" s1] i1 by blast
  with l s1 show ?case by simp
qed

lemma sweep_inv_cong:
  assumes "\<And>c r. inside (board s) c r \<Longrightarrow> done_cell x y c r = done_cell x' y' c r"
  shows "sweep_inv x y s = sweep_inv x' y' s"
  unfolding sweep_inv_def using assms by auto

lemma moveLeft_step:
  assumes "sweep_inv x y s" and "inside (board s) x y"
  shows "\<exists>s'. on_cell Block_moveLeft x y s = (s', None) \<and> sweep_inv x (y + 1) s'
     \<and> cols (board s') = cols (board s) \<and> rows (board s') = rows (board s)"
proof -
  have sh: "shaped (board s)" using assms(1) by (simp add: sweep_inv_def)
  show ?thesis
  proof (cases "blocks (board s) ! nat x ! nat y")
    case None
    then have c: "cell (board s) x y = Inr None"
      using shaped_cell(1) [OF sh assms(2)] by simp
    then have "on_cell Block_moveLeft x y s = (s, None)" by (simp add: on_cell_def)
    with moveLeft_step_empty [OF assms(1) c] show ?thesis by simp
  next
    case (Some d)
    then have c: "cell (board s) x y = Inr (Some d)"
      using shaped_cell(1) [OF sh assms(2)] by simp
    then have "on_cell Block_moveLeft x y s = Block_moveLeft s d" by (simp add: on_cell_def)
    with moveLeft_step_tile [OF assms c] show ?thesis by simp
  qed
qed

lemma moveLeft_column:
  assumes "sweep_inv x 0 s" and "1 \<le> x" and "x < cols (board s)"
  shows "\<exists>s'. for_loop [0 .. rows (board s) - 1] (\<lambda>y. on_cell Block_moveLeft x y) s = (s', None)
     \<and> sweep_inv (x + 1) 0 s'
     \<and> cols (board s') = cols (board s) \<and> rows (board s') = rows (board s)"
proof (cases "0 \<le> rows (board s)")
  case False
  then have "[0 .. rows (board s) - 1] = []" by simp
  moreover have "sweep_inv (x + 1) 0 s = sweep_inv x 0 s"
    using False by (intro sweep_inv_cong) (simp add: inside_def)
  ultimately show ?thesis using assms(1) by simp
next
  case True
  define I where "I = (\<lambda>y s'. sweep_inv x y s'
     \<and> cols (board s') = cols (board s) \<and> rows (board s') = rows (board s))"
  have "\<exists>s'. for_loop [0 .. rows (board s) - 1] (\<lambda>y. on_cell Block_moveLeft x y) s = (s', None)
     \<and> I (rows (board s) - 1 + 1) s'"
  proof (rule for_loop_upto)
    show "0 \<le> rows (board s) - 1 + 1" using True by simp
    show "I 0 s" using assms(1) by (simp add: I_def)
  next
    fix y and s1 :: world
    assume y: "0 \<le> y" "y \<le> rows (board s) - 1" and "I y s1"
    then have inv: "sweep_inv x y s1" and d: "cols (board s1) = cols (board s)"
      "rows (board s1) = rows (board s)" by (simp_all add: I_def)
    have "inside (board s1) x y" using y assms(2,3) d by (simp add: inside_def)
    from moveLeft_step [OF inv this] d
    show "\<exists>s'. on_cell Block_moveLeft x y s1 = (s', None) \<and> I (y + 1) s'"
      by (auto simp: I_def)
  qed
  then obtain s' where l: "for_loop [0 .. rows (board s) - 1] (\<lambda>y. on_cell Block_moveLeft x y) s = (s', None)"
    and inv: "sweep_inv x (rows (board s)) s'" and d: "cols (board s') = cols (board s)"
    "rows (board s') = rows (board s)" by (auto simp: I_def)
  have "sweep_inv (x + 1) 0 s' = sweep_inv x (rows (board s)) s'"
    using d by (intro sweep_inv_cong) (auto simp: inside_def done_cell_def)
  with l inv d show ?thesis by simp
qed

lemma settled_sweep_inv: "settled s \<Longrightarrow> sweep_inv 1 0 s"
  unfolding settled_def sweep_inv_def
  by (auto simp: done_cell_def stuck_def inside_def)

lemma sweep_inv_done:
  assumes "sweep_inv x 0 s" and "cols (board s) \<le> x"
  shows "Board_moveLeft s = (s, None)"
proof (rule all_stuck_moveLeft)
  show "shaped (board s)" using assms(1) by (simp add: sweep_inv_def)
next
  fix c r q
  assume i: "inside (board s) c r" and c: "cell (board s) c r = Inr (Some q)"
  then have "done_cell x 0 c r" using assms(2) by (simp add: done_cell_def inside_def)
  then show "stuck s q" using sweep_inv_cell(5) [OF assms(1) i c] by simp
qed

lemma Board_moveLeft_twice:
  assumes "settled s"
  shows "snd (Board_moveLeft s) = None
    \<and> Board_moveLeft (fst (Board_moveLeft s)) = (fst (Board_moveLeft s), None)"
proof (cases "1 \<le> cols (board s)")
  case False
  then have "[1 .. cols (board s) - 1] = []" by simp
  then have "Board_moveLeft s = (s, None)" by (simp add: Board_moveLeft_def)
  then show ?thesis by simp
next
  case True
  define I where "I = (\<lambda>x s'. sweep_inv x 0 s'
     \<and> cols (board s') = cols (board s) \<and> rows (board s') = rows (board s))"
  have "\<exists>s'. for_loop [1 .. cols (board s) - 1]
         (\<lambda>x. for_loop [0 .. rows (board s) - 1] (\<lambda>y. on_cell Block_moveLeft x y)) s = (s', None)
     \<and> I (cols (board s) - 1 + 1) s'"
  proof (rule for_loop_upto)
    show "1 \<le> cols (board s) - 1 + 1" using True by simp
    show "I 1 s" using settled_sweep_inv [OF assms] by (simp add: I_def)
  next
    fix x and s1 :: world
    assume x: "1 \<le> x" "x \<le> cols (board s) - 1" and "I x s1"
    then have inv: "sweep_inv x 0 s1" and d: "cols (board s1) = cols (board s)"
      "rows (board s1) = rows (board s)" by (simp_all add: I_def)
    have "x < cols (board s1)" using x d by simp
    from moveLeft_column [OF inv x(1) this] d
    show "\<exists>s'. for_loop [0 .. rows (board s) - 1] (\<lambda>y. on_cell Block_moveLeft x y) s1 = (s', None)
        \<and> I (x + 1) s'"
      by (auto simp: I_def)
  qed
  then obtain s' where l: "Board_moveLeft s = (s', None)"
    and inv: "sweep_inv (cols (board s)) 0 s'" and d: "cols (board s') = cols (board s)"
    by (auto simp: I_def Board_moveLeft_def)
  have "Board_moveLeft s' = (s', None)"
    using inv d by (intro sweep_inv_done [of "cols (board s)"]) simp_all
  with l show ?thesis by simp
qed

lemma settled_row_4_2_2_0: "settled (row_world [4, 2, 2, 0])"
proof -
  have sh: "shaped (board (row_world [4, 2, 2, 0]))" by code_simp
  have b: "blocks (board (row_world [4, 2, 2, 0]))
      = [[Some 0, None, None, None], [Some 1, None, None, None],
         [Some 2, None, None, None], [None, None, None, None]]"
    by code_simp
  have d: "cols (board (row_world [4, 2, 2, 0])) = 4" "rows (board (row_world [4, 2, 2, 0])) = 4"
    by (simp_all add: row_world_def)
  have h: "heap (row_world [4, 2, 2, 0]) 0 = new_Block 4 0 0"
    "heap (row_world [4, 2, 2, 0]) 1 = new_Block 2 1 0"
    "heap (row_world [4, 2, 2, 0]) 2 = new_Block 2 2 0"
    by (simp_all add: row_world_def)
  show ?thesis
    unfolding settled_def
  proof (rule conjI [OF sh], intro allI impI)
    fix c r q
    assume a: "inside (board (row_world [4, 2, 2, 0])) c r
      \<and> cell (board (row_world [4, 2, 2, 0])) c r = Inr (Some q)"
    then have i: "inside (board (row_world [4, 2, 2, 0])) c r" by simp
    from i d have "c \<in> {0, 1, 2, 3}" "r \<in> {0, 1, 2, 3}" by (auto simp: inside_def)
    moreover from a shaped_cell(1) [OF sh i]
    have "blocks (board (row_world [4, 2, 2, 0])) ! nat c ! nat r = Some q" by simp
    ultimately have "(c = 0 \<and> r = 0 \<and> q = 0) \<or> (c = 1 \<and> r = 0 \<and> q = 1) \<or> (c = 2 \<and> r = 0 \<and> q = 2)"
      unfolding b by (auto simp: numeral_2_eq_2 numeral_3_eq_3)
    then show "0 < value' (heap (row_world [4, 2, 2, 0]) q)
           \<and> gridX (heap (row_world [4, 2, 2, 0]) q) = c \<and> gridY (heap (row_world [4, 2, 2, 0]) q) = r
           \<and> targetX (heap (row_world [4, 2, 2, 0]) q) = c \<and> targetY (heap (row_world [4, 2, 2, 0]) q) = r"
      using h by (auto simp: new_Block_def)
  qed
qed

text \<open>
  C7. The same move applied twice should leave the grid as the first
  application left it.

  \<^verbatim>\<open>Board.moveLeft\<close> does so on settled boards, as shown above.
  \<^verbatim>\<open>Board.moveRight\<close> visits the columns from 0 upwards, away from the wall it
  moves to. On the row 4, 2, 2, empty the 4 is visited first and is blocked by
  the 2 beside it; that 2 then merges and leaves. The second \<^verbatim>\<open>moveRight\<close> finds
  the cell beside the 4 referring to a tile of value 4 and merges again: the
  row reads 4, 4, 2, 4 after one move and 8, 8, 2, 4 after two.

  The same happens with the two tiles that \<^verbatim>\<open>start\<close> makes: from the row
  4, empty, 2, empty a move to the left and the \<^verbatim>\<open>update\<close> that ends it give
  the cells 4, 2, 2, empty, the last 2 being the cell that the tile left; the
  row reads 4, 4, 4, 4 after one \<^verbatim>\<open>moveRight\<close> and 8, 8, 4, 4 after two.
\<close>

theorem C7_moveRight_twice_differs:
  "row_values (row_world [4, 2, 2, 0]) = [Some 4, Some 2, Some 2, None]
   \<and> row_values (fst (Board_moveRight (row_world [4, 2, 2, 0]))) = [Some 4, Some 4, Some 2, Some 4]
   \<and> row_values (fst (Board_moveRight (fst (Board_moveRight (row_world [4, 2, 2, 0])))))
       = [Some 8, Some 8, Some 2, Some 4]
   \<and> fst (Board_moveRight (fst (Board_moveRight (row_world [4, 2, 2, 0]))))
       \<noteq> fst (Board_moveRight (row_world [4, 2, 2, 0]))
   \<and> row_values (fst (Board_update (11 / 10) (fst (Board_moveLeft (row_world [4, 0, 2, 0])))))
       = [Some 4, Some 2, Some 2, None]
   \<and> row_values (fst (Board_moveRight
         (fst (Board_update (11 / 10) (fst (Board_moveLeft (row_world [4, 0, 2, 0])))))))
       = [Some 4, Some 4, Some 4, Some 4]
   \<and> row_values (fst (Board_moveRight (fst (Board_moveRight
         (fst (Board_update (11 / 10) (fst (Board_moveLeft (row_world [4, 0, 2, 0])))))))))
       = [Some 8, Some 8, Some 4, Some 4]"
proof -
  have a: "row_values (row_world [4, 2, 2, 0]) = [Some 4, Some 2, Some 2, None]"
    by code_simp
  have b: "row_values (fst (Board_moveRight (row_world [4, 2, 2, 0])))
             = [Some 4, Some 4, Some 2, Some 4]"
    by code_simp
  have c: "row_values (fst (Board_moveRight (fst (Board_moveRight (row_world [4, 2, 2, 0])))))
             = [Some 8, Some 8, Some 2, Some 4]"
    by code_simp
  have d: "row_values (fst (Board_update (11 / 10) (fst (Board_moveLeft (row_world [4, 0, 2, 0])))))
       = [Some 4, Some 2, Some 2, None]
   \<and> row_values (fst (Board_moveRight
         (fst (Board_update (11 / 10) (fst (Board_moveLeft (row_world [4, 0, 2, 0])))))))
       = [Some 4, Some 4, Some 4, Some 4]
   \<and> row_values (fst (Board_moveRight (fst (Board_moveRight
         (fst (Board_update (11 / 10) (fst (Board_moveLeft (row_world [4, 0, 2, 0])))))))))
       = [Some 8, Some 8, Some 4, Some 4]"
    by code_simp
  have "fst (Board_moveRight (fst (Board_moveRight (row_world [4, 2, 2, 0]))))
          \<noteq> fst (Board_moveRight (row_world [4, 2, 2, 0]))"
  proof
    assume "fst (Board_moveRight (fst (Board_moveRight (row_world [4, 2, 2, 0]))))
              = fst (Board_moveRight (row_world [4, 2, 2, 0]))"
    then have "row_values (fst (Board_moveRight (fst (Board_moveRight (row_world [4, 2, 2, 0])))))
                 = row_values (fst (Board_moveRight (row_world [4, 2, 2, 0])))"
      by (rule arg_cong)
    with b c show False by simp
  qed
  with a b c d show ?thesis by blast
qed

subsection \<open>The vertical actions\<close>

text \<open>
  C6. The actions up and down transform the grid exactly as the action left
  does: the \<^verbatim>\<open>switch\<close> of \<^verbatim>\<open>draw\<close> calls \<^verbatim>\<open>board.moveLeft()\<close> for all three, so
  a frame with one of them pending leaves the same board, the same blocks and
  the same error, if any, as a frame with left pending.
\<close>

theorem C6_up_and_down_are_left:
  "dispatch MOVE_UP s = dispatch MOVE_LEFT s
   \<and> dispatch MOVE_DOWN s = dispatch MOVE_LEFT s
   \<and> world (fst (draw (st\<lparr>action := MOVE_UP\<rparr>))) = world (fst (draw (st\<lparr>action := MOVE_LEFT\<rparr>)))
   \<and> snd (draw (st\<lparr>action := MOVE_UP\<rparr>)) = snd (draw (st\<lparr>action := MOVE_LEFT\<rparr>))
   \<and> world (fst (draw (st\<lparr>action := MOVE_DOWN\<rparr>))) = world (fst (draw (st\<lparr>action := MOVE_LEFT\<rparr>)))
   \<and> snd (draw (st\<lparr>action := MOVE_DOWN\<rparr>)) = snd (draw (st\<lparr>action := MOVE_LEFT\<rparr>))"
  by (simp add: draw_def split: prod.splits option.splits)

subsection \<open>Rows\<close>

text \<open>
  C10. A horizontal move never changes the row of a tile: \<^verbatim>\<open>Block.moveLeft\<close>,
  \<^verbatim>\<open>Block.moveRight\<close> and the sweeps \<^verbatim>\<open>Board.moveLeft\<close> and
  \<^verbatim>\<open>Board.moveRight\<close> leave \<open>gridY\<close> and \<open>targetY\<close> of every block as they
  were, also when the call ends in an error.
\<close>

theorem C10_moves_keep_rows:
  "gridY (heap (fst (Block_moveLeft s this)) r) = gridY (heap s r)
   \<and> targetY (heap (fst (Block_moveLeft s this)) r) = targetY (heap s r)
   \<and> gridY (heap (fst (Block_moveRight s this)) r) = gridY (heap s r)
   \<and> targetY (heap (fst (Block_moveRight s this)) r) = targetY (heap s r)
   \<and> gridY (heap (fst (Board_moveLeft s)) r) = gridY (heap s r)
   \<and> targetY (heap (fst (Board_moveLeft s)) r) = targetY (heap s r)
   \<and> gridY (heap (fst (Board_moveRight s)) r) = gridY (heap s r)
   \<and> targetY (heap (fst (Board_moveRight s)) r) = targetY (heap s r)"
  using Block_moveLeft_frame [of s this] Block_moveRight_frame [of s this]
    Board_moveLeft_evolves [of s] Board_moveRight_evolves [of s]
  by (simp add: evolves_def grows_def)

subsection \<open>Reading a cell\<close>

text \<open>
  C8. \<^verbatim>\<open>Board.block(col, row)\<close> fails with the error of \<^verbatim>\<open>assertRange\<close> when
  the column is outside \<open>[0, cols)\<close>, and when the column is inside and the row is
  outside \<open>[0, rows)\<close>; for coordinates inside the board it returns what the cell
  holds: nothing for an empty cell, the tile of an occupied one. Coordinates are
  integers, as everywhere in the program.
\<close>

theorem C8_block_checks_range:
  assumes "shaped b"
  shows "(gx < 0 \<or> cols b \<le> gx \<longrightarrow> Board_block b gx gy = Inl (RangeError gx 0 (cols b)))
    \<and> (0 \<le> gx \<and> gx < cols b \<and> (gy < 0 \<or> rows b \<le> gy)
         \<longrightarrow> Board_block b gx gy = Inl (RangeError gy 0 (rows b)))
    \<and> (0 \<le> gx \<and> gx < cols b \<and> 0 \<le> gy \<and> gy < rows b
         \<longrightarrow> Board_block b gx gy = Inr (blocks b ! nat gx ! nat gy))"
proof (intro conjI impI)
  assume "gx < 0 \<or> cols b \<le> gx"
  then show "Board_block b gx gy = Inl (RangeError gx 0 (cols b))"
    by (auto simp: Board_block_def assertRange_def)
next
  assume "0 \<le> gx \<and> gx < cols b \<and> (gy < 0 \<or> rows b \<le> gy)"
  then show "Board_block b gx gy = Inl (RangeError gy 0 (rows b))"
    by (auto simp: Board_block_def assertRange_def)
next
  assume r: "0 \<le> gx \<and> gx < cols b \<and> 0 \<le> gy \<and> gy < rows b"
  with assms have x: "nat gx < length (blocks b)"
    by (simp add: shaped_def)
  then have "blocks b ! nat gx \<in> set (blocks b)" by (rule nth_mem)
  with assms r have y: "nat gy < length (blocks b ! nat gx)"
    by (simp add: shaped_def)
  from r x y show "Board_block b gx gy = Inr (blocks b ! nat gx ! nat gy)"
    by (simp add: Board_block_def assertRange_def cell_def js_get_def)
qed

text \<open>The theorem on the board of the row 2, empty, 2, 4.\<close>

theorem C8_block_checks_range_witness:
  "shaped (board (row_world [2, 0, 2, 4]))
   \<and> Board_block (board (row_world [2, 0, 2, 4])) 4 0 = Inl (RangeError 4 0 4)
   \<and> Board_block (board (row_world [2, 0, 2, 4])) (- 1) 0 = Inl (RangeError (- 1) 0 4)
   \<and> Board_block (board (row_world [2, 0, 2, 4])) 0 4 = Inl (RangeError 4 0 4)
   \<and> Board_block (board (row_world [2, 0, 2, 4])) 1 0 = Inr None
   \<and> Board_block (board (row_world [2, 0, 2, 4])) 2 0 = Inr (Some 2)"
proof -
  have sh: "shaped (board (row_world [2, 0, 2, 4]))"
    by code_simp
  have d: "cols (board (row_world [2, 0, 2, 4])) = 4" "rows (board (row_world [2, 0, 2, 4])) = 4"
    by (simp_all add: row_world_def)
  have c: "blocks (board (row_world [2, 0, 2, 4])) ! Suc 0 ! 0 = None"
    "blocks (board (row_world [2, 0, 2, 4])) ! 2 ! 0 = Some 2"
    by code_simp+
  show ?thesis
    using sh C8_block_checks_range [OF sh, of 4 0] C8_block_checks_range [OF sh, of "- 1" 0]
      C8_block_checks_range [OF sh, of 0 4] C8_block_checks_range [OF sh, of 1 0]
      C8_block_checks_range [OF sh, of 2 0]
    by (simp add: d c)
qed

subsection \<open>The offset of a tile\<close>

text \<open>
  C5, as claimed: in every state a tile's offset is zero exactly when its
  current position is its target position. It fails right after a move: the
  tile of column 1 has been given the target column 0 by \<^verbatim>\<open>Board.moveLeft\<close>
  while its offset is still zero; and it fails after \<^verbatim>\<open>update(0)\<close>, which
  computes the offset zero for that tile.
\<close>

theorem C5_offset_zero_while_moving:
  "offsetX (heap (fst (Board_moveLeft (row_world [0, 2, 0, 4]))) 1) = 0
   \<and> offsetY (heap (fst (Board_moveLeft (row_world [0, 2, 0, 4]))) 1) = 0
   \<and> gridX (heap (fst (Board_moveLeft (row_world [0, 2, 0, 4]))) 1) = 1
   \<and> targetX (heap (fst (Board_moveLeft (row_world [0, 2, 0, 4]))) 1) = 0
   \<and> offsetX (Block_update (heap (fst (Board_moveLeft (row_world [0, 2, 0, 4]))) 1) 0) = 0
   \<and> offsetY (Block_update (heap (fst (Board_moveLeft (row_world [0, 2, 0, 4]))) 1) 0) = 0
   \<and> gridX (Block_update (heap (fst (Board_moveLeft (row_world [0, 2, 0, 4]))) 1) 0) = 1
   \<and> targetX (Block_update (heap (fst (Board_moveLeft (row_world [0, 2, 0, 4]))) 1) 0) = 0"
  by code_simp

text \<open>
  C5, amended: immediately after \<^verbatim>\<open>update(t)\<close> with \<open>t\<close> other than 0, the
  offset of the tile is zero exactly when its current position is its target
  position.
\<close>

theorem C5_offset_zero_after_update:
  "t \<noteq> 0 \<Longrightarrow>
     (offsetX (Block_update b t) = 0 \<and> offsetY (Block_update b t) = 0)
     \<longleftrightarrow> (gridX (Block_update b t) = targetX (Block_update b t)
          \<and> gridY (Block_update b t) = targetY (Block_update b t))"
  by (simp add: Block_update_def lerp_def blockSize_def)

text \<open>The theorem half way through the slide of that tile: the offset is -25.\<close>

theorem C5_offset_zero_after_update_witness:
  "(1 / 2 :: real) \<noteq> 0
   \<and> ((offsetX (Block_update (heap (fst (Board_moveLeft (row_world [0, 2, 0, 4]))) 1) (1 / 2)) = 0
        \<and> offsetY (Block_update (heap (fst (Board_moveLeft (row_world [0, 2, 0, 4]))) 1) (1 / 2)) = 0)
       \<longleftrightarrow> (gridX (Block_update (heap (fst (Board_moveLeft (row_world [0, 2, 0, 4]))) 1) (1 / 2))
              = targetX (Block_update (heap (fst (Board_moveLeft (row_world [0, 2, 0, 4]))) 1) (1 / 2))
            \<and> gridY (Block_update (heap (fst (Board_moveLeft (row_world [0, 2, 0, 4]))) 1) (1 / 2))
              = targetY (Block_update (heap (fst (Board_moveLeft (row_world [0, 2, 0, 4]))) 1) (1 / 2))))
   \<and> offsetX (Block_update (heap (fst (Board_moveLeft (row_world [0, 2, 0, 4]))) 1) (1 / 2)) = - 25"
proof -
  have t: "(1 / 2 :: real) \<noteq> 0" by simp
  have o: "offsetX (Block_update (heap (fst (Board_moveLeft (row_world [0, 2, 0, 4]))) 1) (1 / 2)) = - 25"
    by code_simp
  show ?thesis
    using t o C5_offset_zero_after_update [OF t, of "heap (fst (Board_moveLeft (row_world [0, 2, 0, 4]))) 1"]
    by blast
qed

subsection \<open>The loop of a moving tile\<close>

lemma moveLeft_while_stops:
  assumes "snd (moveLeft_while s this) = None"
  shows "targetX (heap (fst (moveLeft_while s this)) this) \<le> 0
     \<or> (\<exists>tb. Board_block (board (fst (moveLeft_while s this)))
                (targetX (heap (fst (moveLeft_while s this)) this) - 1)
                (gridY (heap (fst (moveLeft_while s this)) this)) = Inr (Some tb)
             \<and> value' (heap (fst (moveLeft_while s this)) tb)
                 \<noteq> value' (heap (fst (moveLeft_while s this)) this))"
  using assms
proof (induction s t \<equiv> this rule: moveLeft_while.induct)
  case (1 s)
  then show ?case
    by (simp add: moveLeft_while.simps [of s this] split: if_splits sum.splits option.splits)
qed

lemma moveRight_while_stops:
  assumes "snd (moveRight_while s this) = None"
  shows "cols (board (fst (moveRight_while s this))) - 1 \<le> targetX (heap (fst (moveRight_while s this)) this)
     \<or> (\<exists>tb. Board_block (board (fst (moveRight_while s this)))
                (targetX (heap (fst (moveRight_while s this)) this) + 1)
                (gridY (heap (fst (moveRight_while s this)) this)) = Inr (Some tb)
             \<and> value' (heap (fst (moveRight_while s this)) tb)
                 \<noteq> value' (heap (fst (moveRight_while s this)) this))"
  using assms
proof (induction s t \<equiv> this rule: moveRight_while.induct)
  case (1 s)
  then show ?case
    by (simp add: moveRight_while.simps [of s this] split: if_splits sum.splits option.splits)
qed

text \<open>
  C2, as claimed: after a merge the loop of the moving tile stops, so a tile
  merges at most once in a move. On the row 4, 2, 2, empty the tile of column 2
  finds an equal tile at column 1, doubles to 4, goes on, finds the 4 of
  column 0, and doubles again: it ends at column 0 with the value 8.
\<close>

theorem C2_tile_merges_twice:
  "value' (heap (row_world [4, 2, 2, 0]) 2) = 2
   \<and> targetX (heap (row_world [4, 2, 2, 0]) 2) = 2
   \<and> Board_block (board (row_world [4, 2, 2, 0])) 1 0 = Inr (Some 1)
   \<and> value' (heap (row_world [4, 2, 2, 0]) 1) = 2
   \<and> snd (Block_moveLeft (row_world [4, 2, 2, 0]) 2) = None
   \<and> targetX (heap (fst (Block_moveLeft (row_world [4, 2, 2, 0]) 2)) 2) = 0
   \<and> value' (heap (fst (Block_moveLeft (row_world [4, 2, 2, 0]) 2)) 2) = 8
   \<and> snd (Board_moveLeft (row_world [4, 2, 2, 0])) = None
   \<and> targetX (heap (fst (Board_moveLeft (row_world [4, 2, 2, 0]))) 2) = 0
   \<and> value' (heap (fst (Board_moveLeft (row_world [4, 2, 2, 0]))) 2) = 8"
  by code_simp

text \<open>
  C2, amended: when the loop finds a tile of equal value in the next cell toward
  the wall, it moves the target one step toward the wall, doubles the value of
  the moving tile, and goes on from there. When the loop ends without an error,
  the tile is at the wall or the next cell toward the wall holds a tile of a
  different value; so a tile can merge more than once in a move.
\<close>

theorem C2_merge_goes_on:
  "(0 < targetX (heap s this)
      \<and> Board_block (board s) (targetX (heap s this) - 1) (gridY (heap s this)) = Inr (Some tb)
      \<and> value' (heap s tb) = value' (heap s this)
     \<longrightarrow> moveLeft_while s this =
           moveLeft_while
             (set_block s this
                ((heap s this)\<lparr>targetX := targetX (heap s this) - 1,
                               value' := value' (heap s this) * 2\<rparr>)) this)
   \<and> (snd (moveLeft_while s this) = None
     \<longrightarrow> targetX (heap (fst (moveLeft_while s this)) this) \<le> 0
         \<or> (\<exists>tb. Board_block (board (fst (moveLeft_while s this)))
                (targetX (heap (fst (moveLeft_while s this)) this) - 1)
                (gridY (heap (fst (moveLeft_while s this)) this)) = Inr (Some tb)
             \<and> value' (heap (fst (moveLeft_while s this)) tb)
                 \<noteq> value' (heap (fst (moveLeft_while s this)) this)))
   \<and> (targetX (heap s this) < cols (board s) - 1
      \<and> Board_block (board s) (targetX (heap s this) + 1) (gridY (heap s this)) = Inr (Some tb)
      \<and> value' (heap s tb) = value' (heap s this)
     \<longrightarrow> moveRight_while s this =
           moveRight_while
             (set_block s this
                ((heap s this)\<lparr>targetX := targetX (heap s this) + 1,
                               value' := value' (heap s this) * 2\<rparr>)) this)
   \<and> (snd (moveRight_while s this) = None
     \<longrightarrow> cols (board (fst (moveRight_while s this))) - 1
           \<le> targetX (heap (fst (moveRight_while s this)) this)
         \<or> (\<exists>tb. Board_block (board (fst (moveRight_while s this)))
                (targetX (heap (fst (moveRight_while s this)) this) + 1)
                (gridY (heap (fst (moveRight_while s this)) this)) = Inr (Some tb)
             \<and> value' (heap (fst (moveRight_while s this)) tb)
                 \<noteq> value' (heap (fst (moveRight_while s this)) this)))"
proof (intro conjI impI)
  assume "0 < targetX (heap s this)
      \<and> Board_block (board s) (targetX (heap s this) - 1) (gridY (heap s this)) = Inr (Some tb)
      \<and> value' (heap s tb) = value' (heap s this)"
  then show "moveLeft_while s this =
           moveLeft_while
             (set_block s this
                ((heap s this)\<lparr>targetX := targetX (heap s this) - 1,
                               value' := value' (heap s this) * 2\<rparr>)) this"
    by (subst moveLeft_while.simps) simp
next
  assume "targetX (heap s this) < cols (board s) - 1
      \<and> Board_block (board s) (targetX (heap s this) + 1) (gridY (heap s this)) = Inr (Some tb)
      \<and> value' (heap s tb) = value' (heap s this)"
  then show "moveRight_while s this =
           moveRight_while
             (set_block s this
                ((heap s this)\<lparr>targetX := targetX (heap s this) + 1,
                               value' := value' (heap s this) * 2\<rparr>)) this"
    by (subst moveRight_while.simps) simp
qed (rule moveLeft_while_stops, assumption, rule moveRight_while_stops, assumption)

text \<open>
  The theorem on the row 4, 2, 2, empty: the tile of column 2 for the move to
  the left, the tile of column 1 for the move to the right.
\<close>

theorem C2_merge_goes_on_witness:
  "0 < targetX (heap (row_world [4, 2, 2, 0]) 2)
   \<and> Board_block (board (row_world [4, 2, 2, 0]))
         (targetX (heap (row_world [4, 2, 2, 0]) 2) - 1)
         (gridY (heap (row_world [4, 2, 2, 0]) 2)) = Inr (Some 1)
   \<and> value' (heap (row_world [4, 2, 2, 0]) 1) = value' (heap (row_world [4, 2, 2, 0]) 2)
   \<and> moveLeft_while (row_world [4, 2, 2, 0]) 2 =
       moveLeft_while
         (set_block (row_world [4, 2, 2, 0]) 2
            ((heap (row_world [4, 2, 2, 0]) 2)
               \<lparr>targetX := targetX (heap (row_world [4, 2, 2, 0]) 2) - 1,
                value' := value' (heap (row_world [4, 2, 2, 0]) 2) * 2\<rparr>)) 2
   \<and> targetX (heap (row_world [4, 2, 2, 0]) 1) < cols (board (row_world [4, 2, 2, 0])) - 1
   \<and> Board_block (board (row_world [4, 2, 2, 0]))
         (targetX (heap (row_world [4, 2, 2, 0]) 1) + 1)
         (gridY (heap (row_world [4, 2, 2, 0]) 1)) = Inr (Some 2)
   \<and> value' (heap (row_world [4, 2, 2, 0]) 2) = value' (heap (row_world [4, 2, 2, 0]) 1)
   \<and> moveRight_while (row_world [4, 2, 2, 0]) 1 =
       moveRight_while
         (set_block (row_world [4, 2, 2, 0]) 1
            ((heap (row_world [4, 2, 2, 0]) 1)
               \<lparr>targetX := targetX (heap (row_world [4, 2, 2, 0]) 1) + 1,
                value' := value' (heap (row_world [4, 2, 2, 0]) 1) * 2\<rparr>)) 1
   \<and> snd (moveLeft_while (row_world [4, 2, 2, 0]) 2) = None
   \<and> targetX (heap (fst (moveLeft_while (row_world [4, 2, 2, 0]) 2)) 2) \<le> 0"
proof -
  have l: "0 < targetX (heap (row_world [4, 2, 2, 0]) 2)
      \<and> Board_block (board (row_world [4, 2, 2, 0]))
         (targetX (heap (row_world [4, 2, 2, 0]) 2) - 1)
         (gridY (heap (row_world [4, 2, 2, 0]) 2)) = Inr (Some 1)
      \<and> value' (heap (row_world [4, 2, 2, 0]) 1) = value' (heap (row_world [4, 2, 2, 0]) 2)"
    by code_simp
  have r: "targetX (heap (row_world [4, 2, 2, 0]) 1) < cols (board (row_world [4, 2, 2, 0])) - 1
      \<and> Board_block (board (row_world [4, 2, 2, 0]))
         (targetX (heap (row_world [4, 2, 2, 0]) 1) + 1)
         (gridY (heap (row_world [4, 2, 2, 0]) 1)) = Inr (Some 2)
      \<and> value' (heap (row_world [4, 2, 2, 0]) 2) = value' (heap (row_world [4, 2, 2, 0]) 1)"
    by code_simp
  have e: "snd (moveLeft_while (row_world [4, 2, 2, 0]) 2) = None
      \<and> targetX (heap (fst (moveLeft_while (row_world [4, 2, 2, 0]) 2)) 2) \<le> 0"
    by code_simp
  show ?thesis
    using l r e C2_merge_goes_on [of "row_world [4, 2, 2, 0]" 2 1]
      C2_merge_goes_on [of "row_world [4, 2, 2, 0]" 1 2]
    by blast
qed

subsection \<open>Spawning on a full board\<close>

declare newBlock_while.simps [simp del]

lemma floor_draw_range:
  assumes "0 \<le> r" and "r < 1" and "0 < c"
  shows "0 \<le> \<lfloor>r * of_int c\<rfloor> \<and> \<lfloor>r * of_int c\<rfloor> < c"
proof
  have "0 \<le> r * of_int c" using assms by simp
  then show "0 \<le> \<lfloor>r * of_int c\<rfloor>" by simp
next
  have "r * of_int c < 1 * of_int c"
    using assms by (intro mult_strict_right_mono) simp_all
  then show "\<lfloor>r * of_int c\<rfloor> < c" by (simp add: floor_less_iff)
qed

lemma cell_occupied:
  assumes "shaped b" and "full b" and "0 \<le> x" and "x < cols b" and "0 \<le> y" and "y < rows b"
  shows "\<exists>tb. cell b x y = Inr (Some tb)"
proof -
  from assms have x: "nat x < length (blocks b)"
    by (simp add: shaped_def)
  then have col: "blocks b ! nat x \<in> set (blocks b)" by (rule nth_mem)
  with assms have y: "nat y < length (blocks b ! nat x)"
    by (simp add: shaped_def)
  then have "blocks b ! nat x ! nat y \<in> set (blocks b ! nat x)" by (rule nth_mem)
  with col assms(2) have "blocks b ! nat x ! nat y \<noteq> None"
    by (metis full_def)
  with x y assms(3,5) show ?thesis
    by (auto simp: cell_def js_get_def)
qed

lemma newBlock_while_full:
  assumes "shaped b" and "full b" and "0 < cols b" and "0 < rows b"
  shows "unit_draws rs \<Longrightarrow> 0 \<le> x \<Longrightarrow> x < cols b \<Longrightarrow> 0 \<le> y \<Longrightarrow> y < rows b
         \<Longrightarrow> newBlock_while b x y rs = None"
proof (induction b' \<equiv> b x y rs rule: newBlock_while.induct)
  case (1 x y rs)
  obtain tb where tb: "cell b x y = Inr (Some tb)"
    using cell_occupied [OF assms(1,2)] "1.prems" by blast
  show ?case
  proof (cases rs)
    case Nil
    with tb show ?thesis by (subst newBlock_while.simps) simp
  next
    case (Cons r1 rs1)
    show ?thesis
    proof (cases rs1)
      case Nil
      with \<open>rs = r1 # rs1\<close> tb show ?thesis by (subst newBlock_while.simps) simp
    next
      case (Cons r2 rs')
      have r1: "0 \<le> r1 \<and> r1 < 1" and r2: "0 \<le> r2 \<and> r2 < 1" and rs': "unit_draws rs'"
        using "1.prems"(1) \<open>rs = r1 # rs1\<close> Cons by (simp_all add: unit_draws_def)
      have "newBlock_while b \<lfloor>r1 * of_int (cols b)\<rfloor> \<lfloor>r2 * of_int (rows b)\<rfloor> rs' = None"
        using "1.hyps" [OF tb refl \<open>rs = r1 # rs1\<close> Cons rs']
          floor_draw_range [of r1 "cols b"] floor_draw_range [of r2 "rows b"] r1 r2 assms(3,4)
        by blast
      with tb \<open>rs = r1 # rs1\<close> Cons show ?thesis
        by (subst newBlock_while.simps) simp
    qed
  qed
qed

text \<open>
  C4. On a full grid \<^verbatim>\<open>newBlock\<close> should fail with an error instead of looping
  for ever.

  The code has no such error: its loop draws new coordinates until it finds an
  empty cell. On a full board with at least one cell no list of random numbers,
  however long, lets the call return.
\<close>

theorem C4_newBlock_never_returns_on_full_board:
  assumes "shaped (board s)" and "full (board s)"
    and "0 < cols (board s)" and "0 < rows (board s)" and "unit_draws rs"
  shows "newBlock rs s = None"
proof (cases rs)
  case Nil
  then show ?thesis by (simp add: newBlock_def)
next
  case (Cons r1 rs1)
  show ?thesis
  proof (cases rs1)
    case Nil
    with Cons show ?thesis by (simp add: newBlock_def)
  next
    case (Cons r2 rs2)
    have r1: "0 \<le> r1 \<and> r1 < 1" and r2: "0 \<le> r2 \<and> r2 < 1" and rs2: "unit_draws rs2"
      using assms(5) \<open>rs = r1 # rs1\<close> Cons by (simp_all add: unit_draws_def)
    have "newBlock_while (board s) \<lfloor>r1 * of_int (cols (board s))\<rfloor>
            \<lfloor>r2 * of_int (rows (board s))\<rfloor> rs2 = None"
      using newBlock_while_full [OF assms(1-4) rs2]
        floor_draw_range [of r1 "cols (board s)"] floor_draw_range [of r2 "rows (board s)"]
        r1 r2 assms(3,4)
      by blast
    with \<open>rs = r1 # rs1\<close> Cons show ?thesis by (simp add: newBlock_def)
  qed
qed

text \<open>The theorem on the full 4 by 4 board, with five numbers drawn.\<close>

theorem C4_newBlock_never_returns_on_full_board_witness:
  "shaped (board full_world) \<and> full (board full_world)
   \<and> 0 < cols (board full_world) \<and> 0 < rows (board full_world)
   \<and> unit_draws [1 / 10, 1 / 2, 9 / 10, 3 / 10, 7 / 10]
   \<and> newBlock [1 / 10, 1 / 2, 9 / 10, 3 / 10, 7 / 10] full_world = None"
proof -
  have h: "shaped (board full_world)" "full (board full_world)"
    "0 < cols (board full_world)" "0 < rows (board full_world)"
    "unit_draws [1 / 10, 1 / 2, 9 / 10, 3 / 10, 7 / 10]"
    by code_simp+
  from h C4_newBlock_never_returns_on_full_board [OF h] show ?thesis by simp
qed

subsection \<open>Values\<close>

text \<open>
  Between 2 and 4 the doubles are the multiples of \<open>1 / 2 ^ 51\<close>. For the
  largest double below 1 the sum \<open>r * 2 + 1\<close> lies half way between two of them
  and is rounded to 3.
\<close>

lemma log2_floor_2_4:
  assumes "2 \<le> x" and "x < 4"
  shows "\<lfloor>log 2 \<bar>x\<bar>\<rfloor> = 1"
proof -
  have x: "0 < x" "\<bar>x\<bar> = x" using assms by simp_all
  have "1 \<le> log 2 x" using assms(1) x by (simp add: le_log_iff)
  moreover have "log 2 x < 2" using assms(2) x by (simp add: log_less_iff)
  ultimately show ?thesis using x by (simp add: floor_eq_iff)
qed

lemma double_2_4:
  assumes "2 \<le> x" and "x < 4"
  shows "double x = of_int (round_even (x * 2 ^ 51)) / 2 ^ 51"
proof -
  have p: "(2::real) powr (of_int 1 - 52) = 1 / 2 ^ 51"
  proof -
    have "(2::real) powr (of_int 1 - 52) = 2 powr (- 51)" by simp
    also have "\<dots> = 1 / 2 powr 51" by (simp add: powr_minus_divide)
    also have "\<dots> = 1 / 2 ^ 51" by (simp add: powr_realpow [symmetric])
    finally show ?thesis .
  qed
  from assms have "x \<noteq> 0" by simp
  then show ?thesis
    unfolding double_def log2_floor_2_4 [OF assms] p by simp
qed

lemma spawn_6: "\<lfloor>double ((1 - 1 / 2 ^ 53) * 2 + 1)\<rfloor> * 2 = (6::int)"
proof -
  have r: "2 \<le> ((1 - 1 / 2 ^ 53) * 2 + 1 :: real)" "((1 - 1 / 2 ^ 53) * 2 + 1 :: real) < 4"
    by simp_all
  have e: "round_even (((1 - 1 / 2 ^ 53) * 2 + 1) * 2 ^ 51) = 3 * 2 ^ 51"
    by code_simp
  show ?thesis
    unfolding double_2_4 [OF r] e by simp
qed

lemma not_pow2_6: "\<not> is_pow2 6"
proof
  assume "is_pow2 6"
  then obtain k :: nat where k: "(6::int) = 2 ^ k" by (auto simp: is_pow2_def)
  show False
  proof (cases "k < 3")
    case True
    then have "k = 0 \<or> k = 1 \<or> k = 2" by auto
    with k show False by auto
  next
    case False
    then have "(2::int) ^ 3 \<le> 2 ^ k" by (intro power_increasing) simp_all
    with k show False by simp
  qed
qed

lemma spawn_4: "\<lfloor>double (3 / 4 * 2 + 1)\<rfloor> * 2 = (4::int)"
proof -
  have r: "2 \<le> (3 / 4 * 2 + 1 :: real)" "(3 / 4 * 2 + 1 :: real) < 4"
    by simp_all
  have e: "round_even ((3 / 4 * 2 + 1) * 2 ^ 51) = 5 * 2 ^ 50"
    by code_simp
  show ?thesis
    unfolding double_2_4 [OF r] e by simp
qed

lemma newBlock_empty_world:
  assumes "\<lfloor>double (r * 2 + 1)\<rfloor> * 2 = v"
  shows "newBlock [1 / 8, 1 / 8, r] empty_world
     = Some ((\<lparr>heap = (heap empty_world)(0 := new_Block v 0 0),
              fresh = Suc 0,
              board = fst (cell_set (board empty_world) 0 0 (Some 0))\<rparr>, None), [])"
proof -
  have c: "cell (board empty_world) 0 0 = Inr None" by code_simp
  have w: "newBlock_while (board empty_world) 0 0 [r] = Some (Inr (0, 0), [r])"
    by (subst newBlock_while.simps) (simp add: c)
  have d: "cols (board empty_world) = 4" "rows (board empty_world) = 4"
    by (simp_all add: empty_world_def new_Board_def)
  have f: "fresh empty_world = 0" by (simp add: empty_world_def)
  have e: "snd (cell_set (board empty_world) 0 0 (Some 0)) = None" by code_simp
  show ?thesis
    using assms e by (auto simp: newBlock_def d w f split: prod.splits)
qed

text \<open>
  C9. The value of every tile should be a power of two, a spawned tile having
  the value 2 or 4.

  \<^verbatim>\<open>newBlock\<close> computes the value as \<^verbatim>\<open>Math.floor(Math.random() * 2 + 1) * 2\<close>
  in doubles. When \<^verbatim>\<open>Math.random()\<close> returns \<open>1 - 1 / 2 ^ 53\<close>, the largest
  double below 1, the sum is rounded to 3 and the tile gets the value 6, which is
  no power of two. On the empty board, with the cell (0, 0) drawn, the call
  returns without an error and the cell holds a tile of value 6; with 3 / 4
  drawn for the value the tile has the value 4.
\<close>

theorem C9_newBlock_spawns_6:
  "(0::real) \<le> 1 - 1 / 2 ^ 53 \<and> (1 - 1 / 2 ^ 53 :: real) < 1
   \<and> snd (fst (the (newBlock [1 / 8, 1 / 8, 1 - 1 / 2 ^ 53] empty_world))) = None
   \<and> cell (board (fst (fst (the (newBlock [1 / 8, 1 / 8, 1 - 1 / 2 ^ 53] empty_world))))) 0 0
       = Inr (Some 0)
   \<and> value' (heap (fst (fst (the (newBlock [1 / 8, 1 / 8, 1 - 1 / 2 ^ 53] empty_world)))) 0) = 6
   \<and> \<not> is_pow2 (value' (heap (fst (fst (the (newBlock [1 / 8, 1 / 8, 1 - 1 / 2 ^ 53] empty_world)))) 0))
   \<and> value' (heap (fst (fst (the (newBlock [1 / 8, 1 / 8, 3 / 4] empty_world)))) 0) = 4"
proof -
  have u: "(0::real) \<le> 1 - 1 / 2 ^ 53 \<and> (1 - 1 / 2 ^ 53 :: real) < 1" by simp
  have e: "cell (fst (cell_set (board empty_world) 0 0 (Some 0))) 0 0 = Inr (Some 0)"
    by code_simp
  show ?thesis
    unfolding newBlock_empty_world [OF spawn_6] newBlock_empty_world [OF spawn_4]
    using u e not_pow2_6 by (simp add: new_Block_def)
qed

end
